theory Spec2Isabelle
  imports Complex_Main
begin

section \<open>Python values and failures\<close>

text \<open>
  The module \<^verbatim>\<open>visualization_modules/text_viz.py\<close> is embedded function by function.
  Python integers are \<^typ>\<open>int\<close>; the numbers handed to the rescaling helpers are
  exact rationals (\<^typ>\<open>rat\<close>), which covers integers and every exactly representable
  fraction; the rounding of binary floating point is not part of the model.
  Every exception the code can raise is a value of \<open>py_error\<close>, and a function that can
  raise returns \<open>py_error + 'a\<close>, \<open>Inl\<close> being the exception.
\<close>

datatype py_error = ZeroDivisionError | KeyError | ValueError

text \<open>\<^verbatim>\<open>a / b\<close> on numbers: true division, which raises on a zero divisor.\<close>

definition py_truediv :: "rat \<Rightarrow> rat \<Rightarrow> py_error + rat" where
  "py_truediv a b = (if b = 0 then Inl ZeroDivisionError else Inr (a / b))"

text \<open>\<^verbatim>\<open>a // b\<close> on integers: floor division, which raises on a zero divisor.\<close>

definition py_floordiv :: "int \<Rightarrow> int \<Rightarrow> py_error + int" where
  "py_floordiv a b = (if b = 0 then Inl ZeroDivisionError else Inr (a div b))"

text \<open>\<^verbatim>\<open>min(xs)\<close> and \<^verbatim>\<open>max(xs)\<close>: a left-to-right scan; an empty argument raises
  \<^verbatim>\<open>ValueError\<close>.\<close>

fun py_min :: "rat list \<Rightarrow> py_error + rat" where
  "py_min [] = Inl ValueError"
| "py_min (x # xs) = Inr (fold min xs x)"

fun py_max :: "rat list \<Rightarrow> py_error + rat" where
  "py_max [] = Inl ValueError"
| "py_max (x # xs) = Inr (fold max xs x)"

subsection \<open>Dictionaries\<close>

text \<open>
  A \<^verbatim>\<open>dict\<close> keeps its keys in insertion order, so it is an association list whose
  keys are pairwise different. \<open>dict_set\<close> is \<^verbatim>\<open>d[k] = v\<close>: an existing key keeps its
  place, a new key goes to the end. \<open>dict_get\<close> is \<^verbatim>\<open>d[k]\<close>, raising \<^verbatim>\<open>KeyError\<close>.
\<close>

type_synonym ('k, 'v) dict = "('k \<times> 'v) list"

fun dict_set :: "('k, 'v) dict \<Rightarrow> 'k \<Rightarrow> 'v \<Rightarrow> ('k, 'v) dict" where
  "dict_set [] k v = [(k, v)]"
| "dict_set ((k', v') # d) k v =
     (if k' = k then (k, v) # d else (k', v') # dict_set d k v)"

definition dict_get :: "('k, 'v) dict \<Rightarrow> 'k \<Rightarrow> py_error + 'v" where
  "dict_get d k = (case map_of d k of None \<Rightarrow> Inl KeyError | Some v \<Rightarrow> Inr v)"

definition dict_keys :: "('k, 'v) dict \<Rightarrow> 'k list" where
  "dict_keys d = map fst d"

definition dict_values :: "('k, 'v) dict \<Rightarrow> 'v list" where
  "dict_values d = map snd d"

definition dict_has :: "('k, 'v) dict \<Rightarrow> 'k \<Rightarrow> bool" where
  "dict_has d k = (k \<in> set (dict_keys d))"

section \<open>Value rescalers\<close>

subsection \<open>Colour intensity scale\<close>

definition get_remaining_perc :: "rat \<Rightarrow> rat" where
  "get_remaining_perc val = 100 - val"

text \<open>\<^verbatim>\<open>_color_scaling(val, new_min = 15, new_max = 60, old_min = 0, old_max = 100)\<close>.\<close>

definition color_scaling :: "rat \<Rightarrow> rat \<Rightarrow> rat \<Rightarrow> rat \<Rightarrow> rat \<Rightarrow> py_error + rat" where
  "color_scaling val new_min new_max old_min old_max =
     (let val' = get_remaining_perc val;
          old_range = old_max - old_min;
          new_range = new_max - new_min
      in case py_truediv ((val' - old_min) * new_range) old_range of
           Inl e \<Rightarrow> Inl e
         | Inr q \<Rightarrow> Inr (q + new_min))"

text \<open>The loop of \<^verbatim>\<open>scale_word_dict\<close> over \<^verbatim>\<open>word_dict.items()\<close>; the call
  \<^verbatim>\<open>_color_scaling(z)\<close> takes the four defaults.\<close>

fun scale_word_loop ::
  "rat \<Rightarrow> rat \<Rightarrow> (string, rat) dict \<Rightarrow> (string, rat) dict \<Rightarrow> py_error + (string, rat) dict" where
  "scale_word_loop min_val max_val [] scaled_dict = Inr scaled_dict"
| "scale_word_loop min_val max_val ((key, val) # items) scaled_dict =
     (case py_truediv (val - min_val) (max_val - min_val) of
        Inl e \<Rightarrow> Inl e
      | Inr q \<Rightarrow>
          (case color_scaling (q * 100) 15 60 0 100 of
             Inl e \<Rightarrow> Inl e
           | Inr c \<Rightarrow> scale_word_loop min_val max_val items (dict_set scaled_dict key c)))"

definition scale_word_dict :: "(string, rat) dict \<Rightarrow> py_error + (string, rat) dict" where
  "scale_word_dict word_dict =
     (case py_min (dict_values word_dict) of
        Inl e \<Rightarrow> Inl e
      | Inr min_val \<Rightarrow>
          (case py_max (dict_values word_dict) of
             Inl e \<Rightarrow> Inl e
           | Inr max_val \<Rightarrow> scale_word_loop min_val max_val word_dict []))"

subsection \<open>Percentile buckets\<close>

definition cal_percentile :: "rat list \<Rightarrow> rat \<Rightarrow> py_error + rat" where
  "cal_percentile number_list percentile =
     (case py_max number_list of Inl e \<Rightarrow> Inl e | Inr m \<Rightarrow> Inr (m * percentile))"

text \<open>One pass of the loop body of \<^verbatim>\<open>rescale_to_percentiles\<close>: the
  \<^verbatim>\<open>if / elif / elif / else\<close> chain, with Python's chained comparisons written out.\<close>

definition percentile_bucket ::
  "rat \<Rightarrow> rat \<Rightarrow> rat \<Rightarrow> 'a \<Rightarrow> 'a \<Rightarrow> 'a \<Rightarrow> 'a \<Rightarrow> rat \<Rightarrow> 'a" where
  "percentile_bucket lowest_25 lowest_50 lowest_75 lowest median second_highest highest val =
     (if val < lowest_25 then lowest
      else if lowest_25 < val \<and> val < lowest_50 then median
      else if lowest_50 < val \<and> val < lowest_75 then second_highest
      else highest)"

definition rescale_to_percentiles ::
  "rat list \<Rightarrow> 'a \<Rightarrow> 'a \<Rightarrow> 'a \<Rightarrow> 'a \<Rightarrow> py_error + 'a list" where
  "rescale_to_percentiles number_list lowest median second_highest highest =
     (case cal_percentile number_list (1 / 4) of
        Inl e \<Rightarrow> Inl e
      | Inr lowest_25 \<Rightarrow>
     (case cal_percentile number_list (1 / 2) of
        Inl e \<Rightarrow> Inl e
      | Inr lowest_50 \<Rightarrow>
     (case cal_percentile number_list (3 / 4) of
        Inl e \<Rightarrow> Inl e
      | Inr lowest_75 \<Rightarrow>
          Inr (map (percentile_bucket lowest_25 lowest_50 lowest_75
                      lowest median second_highest highest) number_list))))"

subsection \<open>Linear rescale\<close>

text \<open>The loop of \<^verbatim>\<open>rescale_to_range\<close>. The source evaluates \<^verbatim>\<open>min(number_list)\<close>
  anew in every pass of the \<^verbatim>\<open>else\<close> branch, and rounds with \<^verbatim>\<open>ceil\<close>.\<close>

fun rescale_loop ::
  "rat list \<Rightarrow> rat \<Rightarrow> rat \<Rightarrow> rat \<Rightarrow> rat list \<Rightarrow> int list \<Rightarrow> py_error + int list" where
  "rescale_loop number_list old_range new_range new_min [] scaled_list = Inr scaled_list"
| "rescale_loop number_list old_range new_range new_min (val # vals) scaled_list =
     (if old_range = 0
      then rescale_loop number_list old_range new_range new_min vals
             (scaled_list @ [\<lceil>new_min\<rceil>])
      else (case py_min number_list of
              Inl e \<Rightarrow> Inl e
            | Inr mn \<Rightarrow>
                (case py_truediv ((val - mn) * new_range) old_range of
                   Inl e \<Rightarrow> Inl e
                 | Inr q \<Rightarrow>
                     rescale_loop number_list old_range new_range new_min vals
                       (scaled_list @ [\<lceil>q + new_min\<rceil>]))))"

text \<open>The parameters come in the source's order: \<^verbatim>\<open>new_max\<close> before \<^verbatim>\<open>new_min\<close>.\<close>

definition rescale_to_range :: "rat list \<Rightarrow> rat \<Rightarrow> rat \<Rightarrow> py_error + int list" where
  "rescale_to_range number_list new_max new_min =
     (case py_max number_list of
        Inl e \<Rightarrow> Inl e
      | Inr mx \<Rightarrow>
          (case py_min number_list of
             Inl e \<Rightarrow> Inl e
           | Inr mn \<Rightarrow>
               rescale_loop number_list (mx - mn) (new_max - new_min) new_min number_list []))"

section \<open>Tokenizer\<close>

text \<open>
  A text is a list of characters. The characters of the model are the code points below
  256 (Latin-1, which holds the Danish letters); \<open>py_isspace\<close> and \<open>py_lower\<close> are
  \<^verbatim>\<open>str.isspace\<close> and \<^verbatim>\<open>str.lower\<close> on that range.
\<close>

definition py_isspace :: "char \<Rightarrow> bool" where
  "py_isspace c =
     (let n = (of_char c :: nat)
      in (9 \<le> n \<and> n \<le> 13) \<or> (28 \<le> n \<and> n \<le> 32) \<or> n = 133 \<or> n = 160)"

definition py_lower_char :: "char \<Rightarrow> char" where
  "py_lower_char c =
     (let n = (of_char c :: nat)
      in if (65 \<le> n \<and> n \<le> 90) \<or> (192 \<le> n \<and> n \<le> 222 \<and> n \<noteq> 215)
         then char_of (n + 32) else c)"

definition py_lower :: "string \<Rightarrow> string" where
  "py_lower s = map py_lower_char s"

text \<open>\<^verbatim>\<open>text.split()\<close>: the maximal runs of characters that are not whitespace, in
  order; \<open>cur\<close> is the run being read. No piece is empty.\<close>

fun py_split_from :: "string \<Rightarrow> string \<Rightarrow> string list" where
  "py_split_from cur [] = (if cur = [] then [] else [cur])"
| "py_split_from cur (c # cs) =
     (if py_isspace c
      then (if cur = [] then py_split_from [] cs else cur # py_split_from [] cs)
      else py_split_from (cur @ [c]) cs)"

definition py_split :: "string \<Rightarrow> string list" where
  "py_split s = py_split_from [] s"

text \<open>\<^verbatim>\<open>text.replace(char, " ")\<close> for a one-character \<^verbatim>\<open>char\<close>.\<close>

definition py_replace :: "char \<Rightarrow> string \<Rightarrow> string" where
  "py_replace c s = map (\<lambda>x. if x = c then CHR '' '' else x) s"

text \<open>The string literal \<^verbatim>\<open>replace_chars\<close> of the source, character by character:
  semicolon, space, comma, full stop, colon, semicolon, asterisk, apostrophe (\<open>0x27\<close>),
  underscore, hash, exclamation mark, question mark, acute accent (\<open>0xB4\<close>), hyphen, the
  two parentheses and the caret.\<close>

definition replace_chars :: string where
  "replace_chars =
     [CHR '';'', CHR '' '', CHR '','', CHR ''.'', CHR '':'', CHR '';'', CHR ''*'', CHR 0x27,
      CHR ''_'', CHR ''#'', CHR ''!'', CHR ''?'', CHR 0xB4, CHR ''-'', CHR ''('', CHR '')'',
      CHR ''^'']"

text \<open>
  What \<^verbatim>\<open>tokenize_and_stem\<close> takes from outside the module: \<open>get_stop_words\<close> is the list
  that the call \<^verbatim>\<open>get_stop_words()\<close> returns (it is read from a file and from the
  \<^verbatim>\<open>wordcloud\<close> package, neither of which is part of the module), and \<open>set_to_list\<close> is
  the order in which \<^verbatim>\<open>list(tokens)\<close> enumerates a \<^verbatim>\<open>set\<close> into which the given
  strings were added one after the other.
\<close>

record tok_env =
  get_stop_words :: "string list"
  set_to_list :: "string list \<Rightarrow> string list"

definition tokenize_and_stem :: "tok_env \<Rightarrow> string \<Rightarrow> string list" where
  "tokenize_and_stem env text =
     (let stopwords = get_stop_words env;
          text' = fold py_replace replace_chars text;
          added = filter (\<lambda>token. token \<notin> set stopwords) (map py_lower (py_split text'))
      in set_to_list env added)"

text \<open>A \<^verbatim>\<open>set\<close> enumerates every element it holds once, in some order.\<close>

definition set_order_ok :: "tok_env \<Rightarrow> bool" where
  "set_order_ok env =
     (\<forall>xs. set (set_to_list env xs) = set xs \<and> distinct (set_to_list env xs))"

text \<open>The tokenizer as the specification words it: every punctuation character becomes a
  space, the text is split on whitespace, each piece is lowercased, and a piece that is
  empty or a stopword is dropped.\<close>

definition tokenize_spec :: "string list \<Rightarrow> string \<Rightarrow> string set" where
  "tokenize_spec stopwords text =
     {t \<in> py_lower ` set (py_split (map (\<lambda>c. if c \<in> set replace_chars then CHR '' '' else c) text)).
        t \<noteq> [] \<and> t \<notin> set stopwords}"

section \<open>Aggregator\<close>

text \<open>A record table is the list of its rows, each the pair of the title column
  (\<^verbatim>\<open>"Titel"\<close>) and the amount column that \<^verbatim>\<open>generate_data\<close> zips.\<close>

type_synonym df = "(string \<times> int) list"

text \<open>\<^verbatim>\<open>_filter_dict\<close>; \<open>None\<close> as upper threshold is the default \<^verbatim>\<open>inf\<close>.\<close>

definition filter_dict :: "('k, int) dict \<Rightarrow> int \<Rightarrow> int option \<Rightarrow> ('k, int) dict" where
  "filter_dict dictionary lower_thresh upper_thresh =
     fold (\<lambda>(key, val) filtered_dict.
             if lower_thresh \<le> val \<and> (case upper_thresh of None \<Rightarrow> True | Some u \<Rightarrow> val \<le> u)
             then dict_set filtered_dict key val else filtered_dict)
          dictionary []"

text \<open>\<^verbatim>\<open>_make_same_keys\<close>: the loop over the keys of \<^verbatim>\<open>filtered_dict\<close>.\<close>

fun make_same_keys_loop ::
  "'k list \<Rightarrow> ('k, 'v) dict \<Rightarrow> ('k, 'v) dict \<Rightarrow> py_error + ('k, 'v) dict" where
  "make_same_keys_loop [] non_filtered_dict return_dict = Inr return_dict"
| "make_same_keys_loop (key # keys) non_filtered_dict return_dict =
     (case dict_get non_filtered_dict key of
        Inl e \<Rightarrow> Inl e
      | Inr val \<Rightarrow> make_same_keys_loop keys non_filtered_dict (dict_set return_dict key val))"

definition make_same_keys :: "('k, 'w) dict \<Rightarrow> ('k, 'v) dict \<Rightarrow> py_error + ('k, 'v) dict" where
  "make_same_keys filtered_dict non_filtered_dict =
     make_same_keys_loop (dict_keys filtered_dict) non_filtered_dict []"

text \<open>The inner loop of \<^verbatim>\<open>generate_data\<close> over the tokens of one title.\<close>

fun count_tokens ::
  "string list \<Rightarrow> int \<Rightarrow> (string, int) dict \<Rightarrow> (string, int) dict
     \<Rightarrow> py_error + ((string, int) dict \<times> (string, int) dict)" where
  "count_tokens [] amount freqs funding = Inr (freqs, funding)"
| "count_tokens (token # tokens) amount freqs funding =
     (if \<not> dict_has freqs token
      then count_tokens tokens amount (dict_set freqs token 1) (dict_set funding token amount)
      else (case dict_get freqs token of
              Inl e \<Rightarrow> Inl e
            | Inr n \<Rightarrow>
                (case dict_get funding token of
                   Inl e \<Rightarrow> Inl e
                 | Inr f \<Rightarrow>
                     count_tokens tokens amount (dict_set freqs token (n + 1))
                       (dict_set funding token (f + amount)))))"

text \<open>The outer loop over the rows.\<close>

fun count_rows ::
  "tok_env \<Rightarrow> df \<Rightarrow> (string, int) dict \<Rightarrow> (string, int) dict
     \<Rightarrow> py_error + ((string, int) dict \<times> (string, int) dict)" where
  "count_rows env [] freqs funding = Inr (freqs, funding)"
| "count_rows env ((text, amount) # rows) freqs funding =
     (case count_tokens (tokenize_and_stem env text) amount freqs funding of
        Inl e \<Rightarrow> Inl e
      | Inr (freqs', funding') \<Rightarrow> count_rows env rows freqs' funding')"

text \<open>The last loop: \<^verbatim>\<open>avg_funding[key] = funding[key] // freqs[key]\<close>.\<close>

fun avg_loop ::
  "string list \<Rightarrow> (string, int) dict \<Rightarrow> (string, int) dict \<Rightarrow> (string, int) dict
     \<Rightarrow> py_error + (string, int) dict" where
  "avg_loop [] funding freqs avg_funding = Inr avg_funding"
| "avg_loop (key # keys) funding freqs avg_funding =
     (case dict_get funding key of
        Inl e \<Rightarrow> Inl e
      | Inr f \<Rightarrow>
          (case dict_get freqs key of
             Inl e \<Rightarrow> Inl e
           | Inr n \<Rightarrow>
               (case py_floordiv f n of
                  Inl e \<Rightarrow> Inl e
                | Inr a \<Rightarrow> avg_loop keys funding freqs (dict_set avg_funding key a))))"

text \<open>The three dictionaries come back in the order of the source:
  \<^verbatim>\<open>(avg_funding, funding, freqs)\<close>.\<close>

type_synonym word_stats = "(string, int) dict \<times> (string, int) dict \<times> (string, int) dict"

definition generate_data :: "tok_env \<Rightarrow> df \<Rightarrow> int \<Rightarrow> py_error + word_stats" where
  "generate_data env df funding_thresh_hold =
     (case count_rows env df [] [] of
        Inl e \<Rightarrow> Inl e
      | Inr (freqs, funding) \<Rightarrow>
          (let funding' = filter_dict funding funding_thresh_hold None
           in case make_same_keys funding' freqs of
                Inl e \<Rightarrow> Inl e
              | Inr freqs' \<Rightarrow>
                  (case avg_loop (dict_keys funding') funding' freqs' [] of
                     Inl e \<Rightarrow> Inl e
                   | Inr avg_funding \<Rightarrow> Inr (avg_funding, funding', freqs'))))"

text \<open>An environment to run examples in: no stopwords, and a set that enumerates its
  elements in the order of their first insertion.\<close>

definition first_seen :: "string list \<Rightarrow> string list" where
  "first_seen xs = rev (remdups (rev xs))"

definition env0 :: tok_env where
  "env0 = \<lparr>get_stop_words = [], set_to_list = first_seen\<rparr>"

section \<open>Co-occurrence graphs\<close>

subsection \<open>The graph of \<^verbatim>\<open>networkx\<close>\<close>

text \<open>
  An undirected \<^verbatim>\<open>nx.Graph\<close> holds two dictionaries: \<open>g_node\<close> maps a node to its
  attributes and \<open>g_adj\<close> maps a node to the dictionary of its neighbours, each with the
  \<^verbatim>\<open>weight\<close> of the edge. An edge between \<open>u\<close> and \<open>v\<close> is stored under both nodes.
  The attributes are the four that the builders set; the layout position, which
  \<^verbatim>\<open>spring_layout\<close> draws at random, is not part of the model.
\<close>

record node_attrs =
  attr_avg_funding :: int
  attr_funding :: int
  attr_freqs :: int
  attr_total_deg :: int

record graph =
  g_node :: "(string, node_attrs) dict"
  g_adj :: "(string, (string, int) dict) dict"

definition empty_graph :: graph where
  "empty_graph = \<lparr>g_node = [], g_adj = []\<rparr>"

text \<open>\<^verbatim>\<open>del d[k]\<close> and \<^verbatim>\<open>d[k] = f(d[k])\<close> for a key that the dictionary holds.\<close>

definition dict_del :: "('k, 'v) dict \<Rightarrow> 'k \<Rightarrow> ('k, 'v) dict" where
  "dict_del d k = filter (\<lambda>(k', v). k' \<noteq> k) d"

definition dict_modify :: "('k, 'v) dict \<Rightarrow> 'k \<Rightarrow> ('v \<Rightarrow> 'v) \<Rightarrow> ('k, 'v) dict" where
  "dict_modify d k f = map (\<lambda>(k', v). if k' = k then (k', f v) else (k', v)) d"

text \<open>\<^verbatim>\<open>G.add_node(n, **attrs)\<close>: a new node gets an empty neighbour dictionary; a node
  that is there already only has its attributes overwritten.\<close>

definition add_node :: "graph \<Rightarrow> string \<Rightarrow> node_attrs \<Rightarrow> graph" where
  "add_node G n attrs =
     (if \<not> dict_has (g_node G) n
      then \<lparr>g_node = dict_set (g_node G) n attrs, g_adj = dict_set (g_adj G) n []\<rparr>
      else G\<lparr>g_node := dict_set (g_node G) n attrs\<rparr>)"

text \<open>The weight stored for \<open>v\<close> among the neighbours of \<open>u\<close>, if there is one:
  \<^verbatim>\<open>G.has_edge(u, v)\<close> asks whether it is there, \<^verbatim>\<open>G[u][v]["weight"]\<close> reads it.\<close>

definition weight_of :: "graph \<Rightarrow> string \<Rightarrow> string \<Rightarrow> int option" where
  "weight_of G u v = (case map_of (g_adj G) u of None \<Rightarrow> None | Some nbrs \<Rightarrow> map_of nbrs v)"

definition has_edge :: "graph \<Rightarrow> string \<Rightarrow> string \<Rightarrow> bool" where
  "has_edge G u v = (weight_of G u v \<noteq> None)"

definition get_weight :: "graph \<Rightarrow> string \<Rightarrow> string \<Rightarrow> py_error + int" where
  "get_weight G u v =
     (case dict_get (g_adj G) u of Inl e \<Rightarrow> Inl e | Inr nbrs \<Rightarrow> dict_get nbrs v)"

text \<open>Writing a weight under both end points: \<^verbatim>\<open>G.add_edge(u, v, weight = w)\<close>, and the
  update \<^verbatim>\<open>G[u][v]["weight"] += 1\<close> of the attribute dictionary that both directions
  share. Both end points are nodes already wherever the module adds an edge.\<close>

definition put_weight :: "graph \<Rightarrow> string \<Rightarrow> string \<Rightarrow> int \<Rightarrow> graph" where
  "put_weight G u v w =
     G\<lparr>g_adj := dict_modify (dict_modify (g_adj G) u (\<lambda>nbrs. dict_set nbrs v w))
                  v (\<lambda>nbrs. dict_set nbrs u w)\<rparr>"

text \<open>The body that the three builders share:
  \<^verbatim>\<open>if G.has_edge(s, t): G[s][t]["weight"] += 1 else: G.add_edge(s, t, weight = 1)\<close>.\<close>

definition bump_edge :: "graph \<Rightarrow> string \<Rightarrow> string \<Rightarrow> graph" where
  "bump_edge G s_tok targ_tok =
     (case weight_of G s_tok targ_tok of
        Some w \<Rightarrow> put_weight G s_tok targ_tok (w + 1)
      | None \<Rightarrow> put_weight G s_tok targ_tok 1)"

text \<open>\<^verbatim>\<open>G.degree()\<close>: the number of neighbours, a self-loop counting twice.\<close>

definition degree_of :: "string \<Rightarrow> (string, int) dict \<Rightarrow> int" where
  "degree_of n nbrs = int (length nbrs) + (if dict_has nbrs n then 1 else 0)"

definition degree_view :: "graph \<Rightarrow> (string \<times> int) list" where
  "degree_view G = map (\<lambda>(n, nbrs). (n, degree_of n nbrs)) (g_adj G)"

definition degree :: "graph \<Rightarrow> string \<Rightarrow> int" where
  "degree G n = (case map_of (g_adj G) n of None \<Rightarrow> 0 | Some nbrs \<Rightarrow> degree_of n nbrs)"

text \<open>\<^verbatim>\<open>G.edges()\<close>: node by node in insertion order, each neighbour in insertion order,
  leaving out the neighbours that were enumerated as nodes before.\<close>

fun edges_from :: "(string, (string, int) dict) dict \<Rightarrow> string list \<Rightarrow> (string \<times> string) list" where
  "edges_from [] seen = []"
| "edges_from ((n, nbrs) # rest) seen =
     map (\<lambda>nbr. (n, nbr)) (filter (\<lambda>nbr. nbr \<notin> set seen) (dict_keys nbrs))
       @ edges_from rest (n # seen)"

definition edges :: "graph \<Rightarrow> (string \<times> string) list" where
  "edges G = edges_from (g_adj G) []"

text \<open>\<^verbatim>\<open>G.remove_edges_from(ebunch)\<close>: an edge that is there is deleted under both end
  points, under one if it is a self-loop.\<close>

definition remove_edge :: "(string \<times> string) \<Rightarrow> graph \<Rightarrow> graph" where
  "remove_edge e G =
     (case e of (u, v) \<Rightarrow>
        if has_edge G u v
        then (let adj1 = dict_modify (g_adj G) u (\<lambda>nbrs. dict_del nbrs v)
              in G\<lparr>g_adj := (if u \<noteq> v then dict_modify adj1 v (\<lambda>nbrs. dict_del nbrs u)
                              else adj1)\<rparr>)
        else G)"

definition remove_edges_from :: "graph \<Rightarrow> (string \<times> string) list \<Rightarrow> graph" where
  "remove_edges_from G ebunch = fold remove_edge ebunch G"

text \<open>\<^verbatim>\<open>nx.isolates(G)\<close> and \<^verbatim>\<open>G.remove_nodes_from(nodes)\<close>: a node that is there is
  deleted with its attributes, from the neighbours of each of its neighbours, and with
  its own neighbour dictionary; a node that is not there is passed over.\<close>

definition isolates :: "graph \<Rightarrow> string list" where
  "isolates G = map fst (filter (\<lambda>(n, d). d = 0) (degree_view G))"

definition remove_node :: "string \<Rightarrow> graph \<Rightarrow> graph" where
  "remove_node n G =
     (if \<not> dict_has (g_node G) n then G
      else (case map_of (g_adj G) n of
              None \<Rightarrow> G\<lparr>g_node := dict_del (g_node G) n\<rparr>
            | Some nbrs \<Rightarrow>
                \<lparr>g_node = dict_del (g_node G) n,
                 g_adj = dict_del (fold (\<lambda>u adj. dict_modify adj u (\<lambda>d. dict_del d n))
                                     (dict_keys nbrs) (g_adj G)) n\<rparr>))"

definition remove_nodes_from :: "graph \<Rightarrow> string list \<Rightarrow> graph" where
  "remove_nodes_from G nodes = fold remove_node nodes G"

subsection \<open>Python lists\<close>

text \<open>\<^verbatim>\<open>xs.remove(x)\<close> deletes the first occurrence and raises \<^verbatim>\<open>ValueError\<close> when
  there is none; \<^verbatim>\<open>xs[:k]\<close> counts a negative \<open>k\<close> from the end.\<close>

definition list_remove :: "'a list \<Rightarrow> 'a \<Rightarrow> py_error + 'a list" where
  "list_remove xs x = (if x \<in> set xs then Inr (remove1 x xs) else Inl ValueError)"

definition py_slice_to :: "'a list \<Rightarrow> int \<Rightarrow> 'a list" where
  "py_slice_to xs k =
     (if 0 \<le> k then take (nat k) xs else take (length xs - nat (- k)) xs)"

text \<open>\<^verbatim>\<open>_sort_tuples\<close>: \<^verbatim>\<open>sorted(tuple_list, key = lambda x: x[1], reverse = True)\<close>, a
  stable sort by descending second component.\<close>

definition sort_tuples :: "('a \<times> int) list \<Rightarrow> ('a \<times> int) list" where
  "sort_tuples tuple_list = sort_key (\<lambda>x. - snd x) tuple_list"

subsection \<open>The parts that the builders share\<close>

text \<open>The keyword arguments of \<^verbatim>\<open>G.add_node\<close>, read from the three dictionaries in the
  order of the source; a token that a dictionary does not hold raises \<^verbatim>\<open>KeyError\<close>.\<close>

definition node_attrs_of :: "word_stats \<Rightarrow> string \<Rightarrow> py_error + node_attrs" where
  "node_attrs_of stats tok =
     (case stats of (avg_funding, funding, freqs) \<Rightarrow>
        (case dict_get avg_funding tok of
           Inl e \<Rightarrow> Inl e
         | Inr a \<Rightarrow>
             (case dict_get funding tok of
                Inl e \<Rightarrow> Inl e
              | Inr f \<Rightarrow>
                  (case dict_get freqs tok of
                     Inl e \<Rightarrow> Inl e
                   | Inr n \<Rightarrow>
                       Inr \<lparr>attr_avg_funding = a, attr_funding = f, attr_freqs = n,
                            attr_total_deg = 0\<rparr>))))"

text \<open>\<^verbatim>\<open>for s_tok in source_list: G.add_node(s_tok, ...)\<close>.\<close>

fun add_nodes_loop :: "word_stats \<Rightarrow> string list \<Rightarrow> graph \<Rightarrow> py_error + graph" where
  "add_nodes_loop stats [] G = Inr G"
| "add_nodes_loop stats (s_tok # source_list) G =
     (case node_attrs_of stats s_tok of
        Inl e \<Rightarrow> Inl e
      | Inr attrs \<Rightarrow> add_nodes_loop stats source_list (add_node G s_tok attrs))"

text \<open>
  The edge loop of \<^verbatim>\<open>generate_graph_data_words\<close> and \<^verbatim>\<open>generate_graph_data_all\<close>.
  \<^verbatim>\<open>temp_targ_list = targ_list\<close> binds a second name to the same list, so
  \<^verbatim>\<open>temp_targ_list.remove(s_tok)\<close> shortens \<^verbatim>\<open>targ_list\<close> for all later passes: the
  list is threaded through the recursion.
\<close>

fun add_edges_loop :: "string list \<Rightarrow> string list \<Rightarrow> graph \<Rightarrow> py_error + graph" where
  "add_edges_loop [] targ_list G = Inr G"
| "add_edges_loop (s_tok # source_list) targ_list G =
     (case list_remove targ_list s_tok of
        Inl e \<Rightarrow> Inl e
      | Inr temp_targ_list \<Rightarrow>
          add_edges_loop source_list temp_targ_list
            (fold (\<lambda>targ_tok G'. bump_edge G' s_tok targ_tok) temp_targ_list G))"

text \<open>\<^verbatim>\<open>for node, deg in G.degree(): G.nodes[node]['total_deg'] = deg\<close>.\<close>

fun total_deg_loop ::
  "(string \<times> int) list \<Rightarrow> (string, node_attrs) dict \<Rightarrow> py_error + (string, node_attrs) dict" where
  "total_deg_loop [] nodes = Inr nodes"
| "total_deg_loop ((node, deg) # rest) nodes =
     (case dict_get nodes node of
        Inl e \<Rightarrow> Inl e
      | Inr attrs \<Rightarrow>
          total_deg_loop rest (dict_set nodes node (attrs\<lparr>attr_total_deg := deg\<rparr>)))"

definition assign_total_deg :: "graph \<Rightarrow> py_error + graph" where
  "assign_total_deg G =
     (case total_deg_loop (degree_view G) (g_node G) of
        Inl e \<Rightarrow> Inl e
      | Inr nodes \<Rightarrow> Inr (G\<lparr>g_node := nodes\<rparr>))"

text \<open>The loop that fills \<^verbatim>\<open>edge_weights\<close>.\<close>

fun edge_weights_loop ::
  "graph \<Rightarrow> (string \<times> string) list \<Rightarrow> ((string \<times> string) \<times> int) list
     \<Rightarrow> py_error + ((string \<times> string) \<times> int) list" where
  "edge_weights_loop G [] edge_weights = Inr edge_weights"
| "edge_weights_loop G (e # es) edge_weights =
     (case get_weight G (fst e) (snd e) of
        Inl err \<Rightarrow> Inl err
      | Inr edge_weight \<Rightarrow> edge_weights_loop G es (edge_weights @ [(e, edge_weight)]))"

text \<open>The pruning, which \<^verbatim>\<open>generate_graph_data_word\<close> and \<^verbatim>\<open>generate_graph_data_all\<close>
  spell out in the same words: the edges outside the first \<^verbatim>\<open>top_n - 1\<close> of the sorted
  list are removed, then the isolated nodes.\<close>

definition prune_top_n :: "graph \<Rightarrow> int \<Rightarrow> py_error + graph" where
  "prune_top_n G top_n =
     (case edge_weights_loop G (edges G) [] of
        Inl e \<Rightarrow> Inl e
      | Inr edge_weights \<Rightarrow>
          (let top_n_edges = map fst (py_slice_to (sort_tuples edge_weights) (top_n - 1));
               edges_remove = filter (\<lambda>e. e \<notin> set top_n_edges) (edges G);
               G' = remove_edges_from G edges_remove
           in Inr (remove_nodes_from G' (isolates G'))))"

subsection \<open>The three builders\<close>

text \<open>The loop of \<^verbatim>\<open>generate_graph_data_all\<close> over the titles.\<close>

fun all_titles_loop :: "tok_env \<Rightarrow> word_stats \<Rightarrow> string list \<Rightarrow> graph \<Rightarrow> py_error + graph" where
  "all_titles_loop env stats [] G = Inr G"
| "all_titles_loop env stats (text # titles) G =
     (let tokens = tokenize_and_stem env text;
          source_list = tokens;
          targ_list = tokens
      in case add_nodes_loop stats source_list G of
           Inl e \<Rightarrow> Inl e
         | Inr G1 \<Rightarrow>
             (case add_edges_loop source_list targ_list G1 of
                Inl e \<Rightarrow> Inl e
              | Inr G2 \<Rightarrow> all_titles_loop env stats titles G2))"

definition generate_graph_data_all :: "tok_env \<Rightarrow> df \<Rightarrow> int \<Rightarrow> py_error + graph" where
  "generate_graph_data_all env df top_n =
     (case generate_data env df 0 of
        Inl e \<Rightarrow> Inl e
      | Inr stats \<Rightarrow>
          (case all_titles_loop env stats (map fst df) empty_graph of
             Inl e \<Rightarrow> Inl e
           | Inr G \<Rightarrow>
               (case assign_total_deg G of
                  Inl e \<Rightarrow> Inl e
                | Inr G1 \<Rightarrow> prune_top_n G1 top_n)))"

text \<open>The loop of \<^verbatim>\<open>generate_graph_data_word\<close>: its inner loop adds a node and an edge
  to \<open>word\<close> for every other token of the title.\<close>

fun word_targets_loop :: "word_stats \<Rightarrow> string \<Rightarrow> string list \<Rightarrow> graph \<Rightarrow> py_error + graph" where
  "word_targets_loop stats word [] G = Inr G"
| "word_targets_loop stats word (targ_tok # targ_list) G =
     (case node_attrs_of stats targ_tok of
        Inl e \<Rightarrow> Inl e
      | Inr attrs \<Rightarrow>
          word_targets_loop stats word targ_list
            (bump_edge (add_node G targ_tok attrs) word targ_tok))"

fun word_titles_loop ::
  "tok_env \<Rightarrow> word_stats \<Rightarrow> string \<Rightarrow> string list \<Rightarrow> graph \<Rightarrow> py_error + graph" where
  "word_titles_loop env stats word [] G = Inr G"
| "word_titles_loop env stats word (text # titles) G =
     (let tokens = tokenize_and_stem env text
      in if word \<notin> set tokens then word_titles_loop env stats word titles G
         else (case node_attrs_of stats word of
                 Inl e \<Rightarrow> Inl e
               | Inr attrs \<Rightarrow>
                   (let targ_list = filter (\<lambda>token. \<not> word = token) tokens
                    in case word_targets_loop stats word targ_list (add_node G word attrs) of
                         Inl e \<Rightarrow> Inl e
                       | Inr G1 \<Rightarrow> word_titles_loop env stats word titles G1)))"

definition generate_graph_data_word :: "tok_env \<Rightarrow> df \<Rightarrow> string \<Rightarrow> int \<Rightarrow> py_error + graph" where
  "generate_graph_data_word env df word top_n =
     (case generate_data env df 0 of
        Inl e \<Rightarrow> Inl e
      | Inr stats \<Rightarrow>
          (case word_titles_loop env stats word (map fst df) empty_graph of
             Inl e \<Rightarrow> Inl e
           | Inr G \<Rightarrow>
               (case assign_total_deg G of
                  Inl e \<Rightarrow> Inl e
                | Inr G1 \<Rightarrow> prune_top_n G1 top_n)))"

text \<open>The loop of \<^verbatim>\<open>generate_graph_data_words\<close>. \<^verbatim>\<open>search_words\<close> gets a token once
  for every entry of \<open>words\<close> that equals it.\<close>

definition search_words_of :: "string list \<Rightarrow> string list \<Rightarrow> string list" where
  "search_words_of tokens words =
     concat (map (\<lambda>token. map (\<lambda>word. token) (filter (\<lambda>word. token = word) words)) tokens)"

fun words_titles_loop ::
  "tok_env \<Rightarrow> word_stats \<Rightarrow> string list \<Rightarrow> string list \<Rightarrow> graph \<Rightarrow> py_error + graph" where
  "words_titles_loop env stats words [] G = Inr G"
| "words_titles_loop env stats words (text # titles) G =
     (let tokens = tokenize_and_stem env text;
          search_words = search_words_of tokens words
      in if length search_words \<le> 1 then words_titles_loop env stats words titles G
         else (let source_list = search_words;
                   targ_list = search_words
               in case add_nodes_loop stats source_list G of
                    Inl e \<Rightarrow> Inl e
                  | Inr G1 \<Rightarrow>
                      (case add_edges_loop source_list targ_list G1 of
                         Inl e \<Rightarrow> Inl e
                       | Inr G2 \<Rightarrow> words_titles_loop env stats words titles G2)))"

text \<open>This builder fills \<^verbatim>\<open>edge_weights\<close> too but removes nothing.\<close>

definition generate_graph_data_words :: "tok_env \<Rightarrow> df \<Rightarrow> string list \<Rightarrow> py_error + graph" where
  "generate_graph_data_words env df words =
     (case generate_data env df 0 of
        Inl e \<Rightarrow> Inl e
      | Inr stats \<Rightarrow>
          (case words_titles_loop env stats words (map fst df) empty_graph of
             Inl e \<Rightarrow> Inl e
           | Inr G \<Rightarrow>
               (case assign_total_deg G of
                  Inl e \<Rightarrow> Inl e
                | Inr G1 \<Rightarrow>
                    (case edge_weights_loop G1 (edges G1) [] of
                       Inl e \<Rightarrow> Inl e
                     | Inr edge_weights \<Rightarrow> Inr G1))))"

section \<open>Invariants\<close>

text \<open>What the counting loop of \<^verbatim>\<open>generate_data\<close> keeps true of its two dictionaries:
  they have the same keys in the same order, no key twice, and every count is positive.\<close>

definition stats_inv :: "(string, int) dict \<Rightarrow> (string, int) dict \<Rightarrow> bool" where
  "stats_inv freqs funding \<longleftrightarrow>
     dict_keys freqs = dict_keys funding \<and> distinct (dict_keys freqs)
     \<and> (\<forall>k n. map_of freqs k = Some n \<longrightarrow> 1 \<le> n)"

text \<open>What \<^verbatim>\<open>networkx\<close> keeps true of a graph: the two dictionaries have the same keys,
  no node and no neighbour is listed twice, and an edge is stored with the same weight
  under both of its end points.\<close>

definition wf_graph :: "graph \<Rightarrow> bool" where
  "wf_graph G \<longleftrightarrow>
     dict_keys (g_node G) = dict_keys (g_adj G)
     \<and> distinct (dict_keys (g_adj G))
     \<and> (\<forall>n nbrs. map_of (g_adj G) n = Some nbrs \<longrightarrow> distinct (dict_keys nbrs))
     \<and> (\<forall>u v w. weight_of G u v = Some w \<longrightarrow> weight_of G v u = Some w)"

text \<open>A graph whose neighbour lists are cut down to the pairs that \<open>Q\<close> admits.\<close>

definition restrict_adj ::
  "(string \<Rightarrow> string \<Rightarrow> bool) \<Rightarrow> (string, (string, int) dict) dict
     \<Rightarrow> (string, (string, int) dict) dict" where
  "restrict_adj Q adj = map (\<lambda>(n, nbrs). (n, filter (\<lambda>(x, w). Q n x) nbrs)) adj"

section \<open>Example inputs\<close>

text \<open>A table of three titles in which \<open>a\<close> meets \<open>b\<close> twice and \<open>c\<close> once, and the
  graph that the global and the ego view of \<open>a\<close> return for it with \<open>top_n = 2\<close>.\<close>

definition df_abc :: df where
  "df_abc = [(''a b'', 1), (''a c'', 1), (''a b'', 1)]"

definition graph_ab :: graph where
  "graph_ab =
     \<lparr>g_node = [(''a'', \<lparr>attr_avg_funding = 1, attr_funding = 3, attr_freqs = 3,
                         attr_total_deg = 2\<rparr>),
                (''b'', \<lparr>attr_avg_funding = 1, attr_funding = 2, attr_freqs = 2,
                         attr_total_deg = 1\<rparr>)],
      g_adj = [(''a'', [(''b'', 2)]), (''b'', [(''a'', 2)])]\<rparr>"

text \<open>A table of one title and the graph that the sub-vocabulary view returns for it when
  the word list names \<open>cat\<close> twice.\<close>

definition df_cat :: df where
  "df_cat = [(''cat'', 1)]"

definition graph_cat :: graph where
  "graph_cat =
     \<lparr>g_node = [(''cat'', \<lparr>attr_avg_funding = 1, attr_funding = 1, attr_freqs = 1,
                           attr_total_deg = 2\<rparr>)],
      g_adj = [(''cat'', [(''cat'', 1)])]\<rparr>"

text \<open>A table in which the two edges weigh the same, and the graph that the global view
  returns for it with \<open>top_n = 2\<close>.\<close>

definition df_tie :: df where
  "df_tie = [(''a b'', 1), (''a c'', 1)]"

definition graph_tie :: graph where
  "graph_tie =
     \<lparr>g_node = [(''a'', \<lparr>attr_avg_funding = 1, attr_funding = 2, attr_freqs = 2,
                         attr_total_deg = 2\<rparr>),
                (''b'', \<lparr>attr_avg_funding = 1, attr_funding = 1, attr_freqs = 1,
                         attr_total_deg = 1\<rparr>)],
      g_adj = [(''a'', [(''b'', 1)]), (''b'', [(''a'', 1)])]\<rparr>"

text \<open>The graph that the sub-vocabulary view returns for \<open>df_abc\<close> and the words
  \<open>a\<close>, \<open>b\<close>, \<open>c\<close>.\<close>

definition graph_abc :: graph where
  "graph_abc =
     \<lparr>g_node = [(''a'', \<lparr>attr_avg_funding = 1, attr_funding = 3, attr_freqs = 3,
                         attr_total_deg = 2\<rparr>),
                (''b'', \<lparr>attr_avg_funding = 1, attr_funding = 2, attr_freqs = 2,
                         attr_total_deg = 1\<rparr>),
                (''c'', \<lparr>attr_avg_funding = 1, attr_funding = 1, attr_freqs = 1,
                         attr_total_deg = 1\<rparr>)],
      g_adj = [(''a'', [(''b'', 2), (''c'', 1)]), (''b'', [(''a'', 2)]), (''c'', [(''a'', 1)])]\<rparr>"

section \<open>The specification's wording of the rescalers\<close>






section \<open>The specification's wording of the pruning\<close>

text \<open>The weight of an edge of the graph, and whether an edge has a node as end point.\<close>

definition edge_weight :: "graph \<Rightarrow> string \<times> string \<Rightarrow> int" where
  "edge_weight G e = (case weight_of G (fst e) (snd e) of None \<Rightarrow> 0 | Some w \<Rightarrow> w)"




section \<open>The specification's wording of the edge weights\<close>

text \<open>The number of titles whose token set holds both \<open>a\<close> and \<open>b\<close>.\<close>

definition co_count :: "tok_env \<Rightarrow> string list \<Rightarrow> string \<Rightarrow> string \<Rightarrow> int" where
  "co_count env titles a b =
     int (length (filter (\<lambda>title. a \<in> set (tokenize_and_stem env title)
                                \<and> b \<in> set (tokenize_and_stem env title)) titles))"

text \<open>Every stored weight is positive and no node is its own neighbour.\<close>

definition good_weights :: "graph \<Rightarrow> bool" where
  "good_weights G \<longleftrightarrow> (\<forall>a b w. weight_of G a b = Some w \<longrightarrow> 0 < w \<and> a \<noteq> b)"

section \<open>Properties of the rescalers\<close>

subsection \<open>Minimum, maximum and dictionary updates\<close>

lemma py_min_eq: "xs \<noteq> [] \<Longrightarrow> py_min xs = Inr (Min (set xs))"
  by (cases xs) (simp_all only: py_min.simps Min.set_eq_fold, simp)

lemma py_max_eq: "xs \<noteq> [] \<Longrightarrow> py_max xs = Inr (Max (set xs))"
  by (cases xs) (simp_all only: py_max.simps Max.set_eq_fold, simp)

lemma Min_eq_Max_iff:
  fixes xs :: "rat list"
  assumes "xs \<noteq> []"
  shows "Min (set xs) = Max (set xs) \<longleftrightarrow> (\<forall>x\<in>set xs. \<forall>y\<in>set xs. x = y)"
proof
  assume eq: "Min (set xs) = Max (set xs)"
  show "\<forall>x\<in>set xs. \<forall>y\<in>set xs. x = y"
  proof (intro ballI)
    fix x y assume "x \<in> set xs" "y \<in> set xs"
    then have "Min (set xs) \<le> x" "x \<le> Max (set xs)" "Min (set xs) \<le> y" "y \<le> Max (set xs)"
      by simp_all
    with eq show "x = y" by linarith
  qed
next
  assume all: "\<forall>x\<in>set xs. \<forall>y\<in>set xs. x = y"
  from assms have "Min (set xs) \<in> set xs" "Max (set xs) \<in> set xs"
    by (simp_all add: Min_in Max_in)
  with all show "Min (set xs) = Max (set xs)" by blast
qed

lemma dict_set_append: "k \<notin> fst ` set d \<Longrightarrow> dict_set d k v = d @ [(k, v)]"
  by (induction d) auto

subsection \<open>Linear rescale\<close>

lemma rescale_loop_zero:
  "rescale_loop nl 0 nr nm vals acc = Inr (acc @ map (\<lambda>v. \<lceil>nm\<rceil>) vals)"
  by (induction vals arbitrary: acc) simp_all

lemma rescale_loop_nonzero:
  "nl \<noteq> [] \<Longrightarrow> r \<noteq> 0 \<Longrightarrow>
   rescale_loop nl r nr nm vals acc =
     Inr (acc @ map (\<lambda>v. \<lceil>(v - Min (set nl)) * nr / r + nm\<rceil>) vals)"
  by (induction vals arbitrary: acc) (simp_all add: py_min_eq py_truediv_def)



text \<open>The linear rescale returns a list for every non-empty list of numbers: the guard
  \<^verbatim>\<open>if old_range == 0\<close> keeps the division away from zero.\<close>

theorem rescale_to_range_total:
  "number_list \<noteq> [] \<Longrightarrow> \<exists>out. rescale_to_range number_list new_max new_min = Inr out"
  by (cases "Max (set number_list) - Min (set number_list) = 0")
    (simp_all add: rescale_to_range_def py_min_eq py_max_eq rescale_loop_zero
       rescale_loop_nonzero)

theorem rescale_to_range_total_witness:
  "[3, 3 :: rat] \<noteq> [] \<and> rescale_to_range [3, 3] 10 1 = Inr [1, 1]"
  using rescale_to_range_total [of "[3, 3]" 10 1]
  by (simp add: rescale_to_range_def)

subsection \<open>Colour intensity scale\<close>






text \<open>
  Claim C3. The three rescalers are meant to return a result on every non-empty input.
  \<^verbatim>\<open>scale_word_dict\<close> does not: it divides by \<open>max - min\<close> without the guard that
  \<^verbatim>\<open>rescale_to_range\<close> has, so a dictionary of one word raises
  \<^verbatim>\<open>ZeroDivisionError\<close>.
\<close>

theorem scale_word_dict_one_word_fails:
  "scale_word_dict [(''cat'', 5)] = Inl ZeroDivisionError"
  by (simp add: scale_word_dict_def dict_values_def py_truediv_def)

text \<open>The same failure for every non-empty dictionary whose values are all equal.\<close>

lemma scale_word_dict_equal_values_fail:
  assumes "word_dict \<noteq> []" and "\<forall>v\<in>set (dict_values word_dict). \<forall>w\<in>set (dict_values word_dict). v = w"
  shows "scale_word_dict word_dict = Inl ZeroDivisionError"
proof -
  from assms(1) have ne: "dict_values word_dict \<noteq> []" by (simp add: dict_values_def)
  with assms(2) have "Min (set (dict_values word_dict)) = Max (set (dict_values word_dict))"
    by (simp add: Min_eq_Max_iff)
  moreover obtain k v items where "word_dict = (k, v) # items"
    using assms(1) by (cases word_dict) auto
  ultimately show ?thesis
    using ne by (simp add: scale_word_dict_def py_min_eq py_max_eq py_truediv_def)
qed

subsection \<open>Percentile buckets\<close>

text \<open>The bucket transform returns a list for every non-empty list of numbers, and a
  value from the 75 percent threshold on gets the top level.\<close>

theorem rescale_to_percentiles_total_and_top:
  assumes "number_list \<noteq> []"
  shows "\<exists>out. rescale_to_percentiles number_list lowest median second_highest highest = Inr out
           \<and> length out = length number_list
           \<and> (\<forall>i<length number_list.
                 Max (set number_list) * (3 / 4) \<le> number_list ! i \<longrightarrow> out ! i = highest)"
proof -
  let ?m = "Max (set number_list)"
  let ?out = "map (percentile_bucket (?m * (1 / 4)) (?m * (1 / 2)) (?m * (3 / 4))
                     lowest median second_highest highest) number_list"
  have run: "rescale_to_percentiles number_list lowest median second_highest highest = Inr ?out"
    using assms by (simp add: rescale_to_percentiles_def cal_percentile_def py_max_eq)
  have "?out ! i = highest" if i: "i < length number_list" and ge: "?m * (3 / 4) \<le> number_list ! i" for i
  proof -
    let ?v = "number_list ! i"
    from i have "?v \<le> ?m" by simp
    with ge have m0: "0 \<le> ?m" by simp
    then have "?m * (1 / 4) \<le> ?v" "?m * (1 / 2) \<le> ?v" using ge by simp_all
    with ge i show ?thesis by (simp add: percentile_bucket_def)
  qed
  with run show ?thesis by simp
qed

theorem rescale_to_percentiles_total_and_top_witness:
  "[1, 2, 3, 4 :: rat] \<noteq> [] \<and> rescale_to_percentiles [1, 2, 3, 4] (2::int) 4 6 8 = Inr [8, 8, 8, 8]"
  using rescale_to_percentiles_total_and_top [of "[1, 2, 3, 4]" "2::int" 4 6 8]
  by (simp add: rescale_to_percentiles_def cal_percentile_def percentile_bucket_def)

text \<open>
  Claim C2. A value equal to the 25 percent or the 50 percent threshold is meant to fall
  into the lower of the two buckets that meet there. In the source the \<^verbatim>\<open>elif\<close>
  tests are strict on both sides, so such a value fails all three tests and lands in the
  \<^verbatim>\<open>else\<close> branch, the top bucket: in \<open>[1, 4]\<close> the value 1 is the 25 percent
  threshold, and it is rescaled to 8, not to 2.
\<close>

theorem rescale_to_percentiles_threshold_in_top_bucket:
  "rescale_to_percentiles [1, 2, 4] (2::int) 4 6 8 = Inr [8, 8, 8]"
  by (simp add: rescale_to_percentiles_def cal_percentile_def percentile_bucket_def)

text \<open>In general: with a positive maximum, a value on the 25 or 50 percent threshold
  gets the top level, and so does every value from the 75 percent threshold on.\<close>

lemma percentile_bucket_on_threshold:
  assumes "0 < m"
  shows "percentile_bucket (m * (1 / 4)) (m * (1 / 2)) (m * (3 / 4)) lowest median
           second_highest highest (m * (1 / 4)) = highest"
    and "percentile_bucket (m * (1 / 4)) (m * (1 / 2)) (m * (3 / 4)) lowest median
           second_highest highest (m * (1 / 2)) = highest"
  using assms by (simp_all add: percentile_bucket_def)

lemma percentile_bucket_top:
  assumes "0 \<le> m" and "m * (3 / 4) \<le> val"
  shows "percentile_bucket (m * (1 / 4)) (m * (1 / 2)) (m * (3 / 4)) lowest median
           second_highest highest val = highest"
proof -
  from assms have "m * (1 / 4) \<le> val" "m * (1 / 2) \<le> val" by simp_all
  with assms(2) show ?thesis by (simp add: percentile_bucket_def)
qed

section \<open>Properties of the tokenizer\<close>

lemma fold_py_replace:
  "fold py_replace cs s = map (\<lambda>c. if c \<in> set cs then CHR '' '' else c) s"
proof (induction cs arbitrary: s)
  case Nil
  then show ?case by simp
next
  case (Cons c cs)
  show ?case by (simp add: Cons.IH) (simp add: py_replace_def)
qed

lemma py_split_from_nonempty: "[] \<notin> set (py_split_from cur s)"
  by (induction cur s rule: py_split_from.induct) auto

lemma py_split_nonempty: "[] \<notin> set (py_split s)"
  by (simp add: py_split_def py_split_from_nonempty)

lemma py_lower_Nil_iff: "py_lower s = [] \<longleftrightarrow> s = []"
  by (simp add: py_lower_def)

lemma tokenize_and_stem_set:
  assumes "set_order_ok env"
  shows "set (tokenize_and_stem env text) = tokenize_spec (get_stop_words env) text"
    and "distinct (tokenize_and_stem env text)"
proof -
  let ?pieces = "py_split (map (\<lambda>c. if c \<in> set replace_chars then CHR '' '' else c) text)"
  have "\<And>p. p \<in> set ?pieces \<Longrightarrow> py_lower p \<noteq> []"
    using py_split_nonempty [of "map (\<lambda>c. if c \<in> set replace_chars then CHR '' '' else c) text"]
    by (auto simp: py_lower_Nil_iff)
  then show "set (tokenize_and_stem env text) = tokenize_spec (get_stop_words env) text"
    using assms
    by (auto simp: tokenize_and_stem_def tokenize_spec_def set_order_ok_def fold_py_replace Let_def)
  show "distinct (tokenize_and_stem env text)"
    using assms by (simp add: tokenize_and_stem_def set_order_ok_def Let_def)
qed

lemma cat_pieces:
  "map py_lower (py_split (map (\<lambda>c. if c \<in> set replace_chars then CHR '' '' else c) ''Cat, cat CAT!''))
     = [''cat'', ''cat'', ''cat'']"
  by code_simp

lemma first_seen_ok: "set (first_seen xs) = set xs" "distinct (first_seen xs)"
  by (simp_all add: first_seen_def)

lemma env0_ok: "set_order_ok env0"
  by (simp add: set_order_ok_def env0_def first_seen_ok)

lemma env0_cat: "tokenize_and_stem env0 ''Cat, cat CAT!'' = [''cat'']"
  by code_simp

text \<open>
  Claim C10. \<^verbatim>\<open>tokenize_and_stem\<close> returns, without duplicates, exactly the tokens of
  the specification: punctuation replaced by spaces, split on whitespace, lowercased,
  stopwords dropped (no piece of a split is empty). With no stopwords the text
  \<open>Cat, cat CAT!\<close> gives the one token \<open>cat\<close>, and the token set does not depend on
  the order in which the set is enumerated, so tokenizing a text again gives the same
  set.
\<close>

theorem tokenize_and_stem_refines_spec:
  assumes "set_order_ok env"
  shows "set (tokenize_and_stem env text) = tokenize_spec (get_stop_words env) text
       \<and> distinct (tokenize_and_stem env text)
       \<and> (get_stop_words env = [] \<longrightarrow> set (tokenize_and_stem env ''Cat, cat CAT!'') = {''cat''})
       \<and> (\<forall>env'. set_order_ok env' \<and> get_stop_words env' = get_stop_words env \<longrightarrow>
             set (tokenize_and_stem env' text) = set (tokenize_and_stem env text))"
proof (intro conjI allI impI)
  show "set (tokenize_and_stem env text) = tokenize_spec (get_stop_words env) text"
    by (rule tokenize_and_stem_set(1) [OF assms])
  show "distinct (tokenize_and_stem env text)"
    by (rule tokenize_and_stem_set(2) [OF assms])
  show "set (tokenize_and_stem env ''Cat, cat CAT!'') = {''cat''}" if "get_stop_words env = []"
  proof -
    have "tokenize_spec [] ''Cat, cat CAT!'' = {''cat''}"
      unfolding tokenize_spec_def set_map [symmetric] cat_pieces by auto
    with that show ?thesis by (simp add: tokenize_and_stem_set(1) [OF assms])
  qed
  show "set (tokenize_and_stem env' text) = set (tokenize_and_stem env text)"
    if "set_order_ok env' \<and> get_stop_words env' = get_stop_words env" for env'
    using that by (simp add: tokenize_and_stem_set(1) assms)
qed

text \<open>The theorem in the example environment.\<close>

theorem tokenize_and_stem_refines_spec_witness:
  "set_order_ok env0 \<and> tokenize_and_stem env0 ''Cat, cat CAT!'' = [''cat'']
     \<and> tokenize_spec [] ''Cat, cat CAT!'' = {''cat''}"
  using tokenize_and_stem_refines_spec [OF env0_ok, of "''Cat, cat CAT!''"] env0_ok env0_cat
  by (simp add: env0_def)


section \<open>Properties of the aggregator\<close>

subsection \<open>Dictionary updates\<close>

lemma dict_keys_dict_set_old: "k \<in> fst ` set d \<Longrightarrow> map fst (dict_set d k v) = map fst d"
  by (induction d) force+

lemma dict_keys_dict_set:
  "dict_keys (dict_set d k v) = (if k \<in> set (dict_keys d) then dict_keys d else dict_keys d @ [k])"
  by (simp add: dict_keys_def dict_keys_dict_set_old dict_set_append)

lemma map_of_dict_set: "map_of (dict_set d k v) = (map_of d)(k \<mapsto> v)"
  by (induction d) (auto simp: fun_eq_iff)

lemma distinct_dict_set: "distinct (dict_keys d) \<Longrightarrow> distinct (dict_keys (dict_set d k v))"
  by (simp add: dict_keys_dict_set)

lemma dict_get_in_keys:
  "k \<in> set (dict_keys d) \<Longrightarrow> \<exists>v. dict_get d k = Inr v \<and> map_of d k = Some v"
  by (cases "map_of d k") (auto simp: dict_get_def dict_keys_def map_of_eq_None_iff)

lemma dict_get_Inr_iff: "dict_get d k = Inr v \<longleftrightarrow> map_of d k = Some v"
  by (simp add: dict_get_def split: option.splits)

subsection \<open>The loops of \<^verbatim>\<open>generate_data\<close>\<close>

lemma count_tokens_inv:
  "stats_inv freqs funding \<Longrightarrow>
   \<exists>fr fu. count_tokens tokens amount freqs funding = Inr (fr, fu) \<and> stats_inv fr fu"
proof (induction tokens arbitrary: freqs funding)
  case Nil
  then show ?case by simp
next
  case (Cons token tokens)
  show ?case
  proof (cases "dict_has freqs token")
    case False
    have "stats_inv (dict_set freqs token 1) (dict_set funding token amount)"
      using Cons.prems False
      by (auto simp: stats_inv_def dict_has_def dict_keys_dict_set map_of_dict_set)
    from Cons.IH [OF this] show ?thesis using False by simp
  next
    case True
    then have in1: "token \<in> set (dict_keys freqs)" by (simp add: dict_has_def)
    with Cons.prems have in2: "token \<in> set (dict_keys funding)" by (simp add: stats_inv_def)
    from dict_get_in_keys [OF in1] obtain n where
      n: "dict_get freqs token = Inr n" "map_of freqs token = Some n" by blast
    from dict_get_in_keys [OF in2] obtain f where
      f: "dict_get funding token = Inr f" by blast
    from Cons.prems n(2) have "1 \<le> n" by (simp add: stats_inv_def)
    then have "stats_inv (dict_set freqs token (n + 1)) (dict_set funding token (f + amount))"
      using Cons.prems in1 in2
      by (auto simp: stats_inv_def dict_keys_dict_set map_of_dict_set)
    from Cons.IH [OF this] show ?thesis using True n f by simp
  qed
qed

lemma count_rows_inv:
  "stats_inv freqs funding \<Longrightarrow>
   \<exists>fr fu. count_rows env df freqs funding = Inr (fr, fu) \<and> stats_inv fr fu"
proof (induction df arbitrary: freqs funding)
  case Nil
  then show ?case by simp
next
  case (Cons row df)
  obtain title amount where row: "row = (title, amount)" by (cases row)
  from count_tokens_inv [OF Cons.prems] obtain fr fu where
    step: "count_tokens (tokenize_and_stem env title) amount freqs funding = Inr (fr, fu)"
    and inv: "stats_inv fr fu" by blast
  from Cons.IH [OF inv] show ?case by (simp add: row step)
qed

lemma filter_fold_eq:
  "distinct (map fst acc @ map fst d) \<Longrightarrow>
   fold (\<lambda>(key, val) filtered. if P val then dict_set filtered key val else filtered) d acc
     = acc @ filter (\<lambda>(key, val). P val) d"
proof (induction d arbitrary: acc)
  case Nil
  then show ?case by simp
next
  case (Cons kv d)
  obtain k v where kv: "kv = (k, v)" by (cases kv)
  from Cons.prems have notin: "k \<notin> fst ` set acc" by (auto simp: kv)
  show ?case
  proof (cases "P v")
    case True
    have "distinct (map fst (acc @ [(k, v)]) @ map fst d)" using Cons.prems by (auto simp: kv)
    from Cons.IH [OF this] show ?thesis using True by (simp add: kv dict_set_append [OF notin])
  next
    case False
    have "distinct (map fst acc @ map fst d)" using Cons.prems by (auto simp: kv)
    from Cons.IH [OF this] show ?thesis using False by (simp add: kv)
  qed
qed

lemma filter_dict_eq:
  "distinct (dict_keys d) \<Longrightarrow> filter_dict d lo None = filter (\<lambda>(key, val). lo \<le> val) d"
  using filter_fold_eq [of "[]" d "\<lambda>val. lo \<le> val"] by (simp add: filter_dict_def dict_keys_def)

lemma make_same_keys_loop_eq:
  "set keys \<subseteq> set (dict_keys nf) \<Longrightarrow> distinct (map fst acc @ keys) \<Longrightarrow>
   make_same_keys_loop keys nf acc = Inr (acc @ map (\<lambda>k. (k, the (map_of nf k))) keys)"
proof (induction keys arbitrary: acc)
  case Nil
  then show ?case by simp
next
  case (Cons k keys)
  from Cons.prems(1) have "k \<in> set (dict_keys nf)" by simp
  from dict_get_in_keys [OF this] obtain v where
    v: "dict_get nf k = Inr v" "map_of nf k = Some v" by blast
  from Cons.prems(2) have notin: "k \<notin> fst ` set acc" by auto
  have "set keys \<subseteq> set (dict_keys nf)" "distinct (map fst (acc @ [(k, v)]) @ keys)"
    using Cons.prems by auto
  from Cons.IH [OF this] show ?case by (simp add: v dict_set_append [OF notin])
qed

lemma avg_loop_eq:
  "set keys \<subseteq> set (dict_keys funding) \<Longrightarrow> set keys \<subseteq> set (dict_keys freqs) \<Longrightarrow>
   (\<forall>k n. map_of freqs k = Some n \<longrightarrow> n \<noteq> 0) \<Longrightarrow> distinct (map fst acc @ keys) \<Longrightarrow>
   avg_loop keys funding freqs acc
     = Inr (acc @ map (\<lambda>k. (k, the (map_of funding k) div the (map_of freqs k))) keys)"
proof (induction keys arbitrary: acc)
  case Nil
  then show ?case by simp
next
  case (Cons k keys)
  from Cons.prems(1) have "k \<in> set (dict_keys funding)" by simp
  from dict_get_in_keys [OF this] obtain f where
    f: "dict_get funding k = Inr f" "map_of funding k = Some f" by blast
  from Cons.prems(2) have "k \<in> set (dict_keys freqs)" by simp
  from dict_get_in_keys [OF this] obtain n where
    n: "dict_get freqs k = Inr n" "map_of freqs k = Some n" by blast
  from Cons.prems(3) n(2) have nz: "n \<noteq> 0" by blast
  from Cons.prems(4) have notin: "k \<notin> fst ` set acc" by auto
  have "set keys \<subseteq> set (dict_keys funding)" "set keys \<subseteq> set (dict_keys freqs)"
    "distinct (map fst (acc @ [(k, f div n)]) @ keys)"
    using Cons.prems by auto
  from Cons.IH [OF this(1,2) Cons.prems(3) this(3)] show ?case
    using nz by (simp add: f n py_floordiv_def dict_set_append [OF notin])
qed

text \<open>What \<^verbatim>\<open>generate_data\<close> returns, in closed form, from the two dictionaries that the
  counting loop leaves.\<close>

lemma generate_data_closed_form:
  assumes rows: "count_rows env df [] [] = Inr (freqs, funding)"
    and inv: "stats_inv freqs funding"
  shows "generate_data env df thresh =
     Inr (map (\<lambda>(k, f). (k, f div the (map_of freqs k))) (filter (\<lambda>(k, f). thresh \<le> f) funding),
          filter (\<lambda>(k, f). thresh \<le> f) funding,
          map (\<lambda>(k, f). (k, the (map_of freqs k))) (filter (\<lambda>(k, f). thresh \<le> f) funding))"
proof -
  let ?fu = "filter (\<lambda>(k, f). thresh \<le> f) funding"
  let ?fr = "map (\<lambda>(k, f). (k, the (map_of freqs k))) ?fu"
  from inv have dk: "distinct (dict_keys funding)" and same: "dict_keys freqs = dict_keys funding"
    and pos: "\<forall>k n. map_of freqs k = Some n \<longrightarrow> 1 \<le> n"
    by (auto simp: stats_inv_def)
  have filt: "filter_dict funding thresh None = ?fu" using dk by (rule filter_dict_eq)
  have sub: "set (dict_keys ?fu) \<subseteq> set (dict_keys freqs)"
    unfolding same by (auto simp: dict_keys_def)
  have dfu: "distinct (dict_keys ?fu)" using dk by (simp add: dict_keys_def distinct_map_filter)
  have msk: "make_same_keys ?fu freqs = Inr ?fr"
    using make_same_keys_loop_eq [OF sub, of "[]"] dfu
    by (simp add: make_same_keys_def dict_keys_def comp_def case_prod_unfold)
  have keys_fr: "dict_keys ?fr = dict_keys ?fu"
    by (simp add: dict_keys_def comp_def case_prod_unfold)
  have mfr: "map_of ?fr k = Some n \<Longrightarrow> map_of freqs k = Some n" for k n
  proof -
    assume a: "map_of ?fr k = Some n"
    then have "(k, n) \<in> set ?fr" by (rule map_of_SomeD)
    then obtain f where "(k, f) \<in> set ?fu" and n: "n = the (map_of freqs k)" by auto
    then have "k \<in> set (dict_keys freqs)" using sub by (force simp: dict_keys_def)
    from dict_get_in_keys [OF this] n show ?thesis by auto
  qed
  have nz: "\<forall>k n. map_of ?fr k = Some n \<longrightarrow> n \<noteq> 0"
  proof (intro allI impI)
    fix k n assume "map_of ?fr k = Some n"
    from mfr [OF this] pos have "1 \<le> n" by blast
    then show "n \<noteq> 0" by simp
  qed
  have mfu: "(k, f) \<in> set ?fu \<Longrightarrow> map_of ?fu k = Some f \<and> map_of ?fr k = Some (the (map_of freqs k))" for k f
  proof -
    assume a: "(k, f) \<in> set ?fu"
    have fu: "map_of ?fu k = Some f" using dfu a by (simp add: dict_keys_def)
    have "(k, the (map_of freqs k)) \<in> set ?fr" using a by force
    moreover have "distinct (map fst ?fr)" using dfu keys_fr by (simp only: dict_keys_def)
    ultimately have "map_of ?fr k = Some (the (map_of freqs k))"
      by (intro map_of_is_SomeI)
    with fu show ?thesis by simp
  qed
  have avg: "avg_loop (dict_keys ?fu) ?fu ?fr []
               = Inr (map (\<lambda>(k, f). (k, f div the (map_of freqs k))) ?fu)"
  proof -
    have "avg_loop (dict_keys ?fu) ?fu ?fr []
            = Inr ([] @ map (\<lambda>k. (k, the (map_of ?fu k) div the (map_of ?fr k))) (dict_keys ?fu))"
      by (rule avg_loop_eq) (use keys_fr nz dfu in simp_all)
    also have "map (\<lambda>k. (k, the (map_of ?fu k) div the (map_of ?fr k))) (dict_keys ?fu)
                 = map (\<lambda>(k, f). (k, f div the (map_of freqs k))) ?fu"
      unfolding dict_keys_def map_map
      by (rule map_cong [OF refl]) (use mfu in \<open>auto simp: comp_def\<close>)
    finally show ?thesis by simp
  qed
  show ?thesis
    using rows filt msk avg by (simp add: generate_data_def Let_def)
qed

lemma stats_inv_empty: "stats_inv [] []"
  by (simp add: stats_inv_def dict_keys_def)

lemma count_rows_total:
  "\<exists>freqs funding. count_rows env df [] [] = Inr (freqs, funding) \<and> stats_inv freqs funding"
  by (rule count_rows_inv [OF stats_inv_empty])

lemma generate_data_example:
  "generate_data env0 [(''alpha beta'', 10), (''alpha gamma'', 5)] 6
     = Inr ([(''alpha'', 7), (''beta'', 10)], [(''alpha'', 15), (''beta'', 10)],
            [(''alpha'', 2), (''beta'', 1)])"
  by code_simp

lemma generate_data_example_all:
  "generate_data env0 [(''alpha beta'', 10), (''alpha gamma'', 5)] 0
     = Inr ([(''alpha'', 7), (''beta'', 10), (''gamma'', 5)],
            [(''alpha'', 15), (''beta'', 10), (''gamma'', 5)],
            [(''alpha'', 2), (''beta'', 1), (''gamma'', 1)])"
  by code_simp

text \<open>
  Claim C4. For every table and threshold \<^verbatim>\<open>generate_data\<close> returns three
  dictionaries with the same keys (in the same order), and for every key the average is
  the funding floor-divided by the frequency; every frequency is at least 1 and every
  funding at least the threshold.
\<close>

theorem generate_data_same_keys_and_average:
  "\<exists>avg_funding funding freqs.
     generate_data env df thresh = Inr (avg_funding, funding, freqs)
     \<and> dict_keys avg_funding = dict_keys funding
     \<and> dict_keys freqs = dict_keys funding
     \<and> distinct (dict_keys funding)
     \<and> (\<forall>t\<in>set (dict_keys funding). \<exists>f n.
           dict_get funding t = Inr f \<and> dict_get freqs t = Inr n \<and> 1 \<le> n \<and> thresh \<le> f
           \<and> dict_get avg_funding t = Inr (f div n)
           \<and> py_floordiv f n = Inr (f div n))"
proof -
  from count_rows_total obtain fr fu where
    rows: "count_rows env df [] [] = Inr (fr, fu)" and inv: "stats_inv fr fu" by blast
  let ?fu = "filter (\<lambda>(k, f). thresh \<le> f) fu"
  let ?fr = "map (\<lambda>(k, f). (k, the (map_of fr k))) ?fu"
  let ?avg = "map (\<lambda>(k, f). (k, f div the (map_of fr k))) ?fu"
  note run = generate_data_closed_form [OF rows inv, of thresh]
  from inv have dk: "distinct (dict_keys fu)" and same: "dict_keys fr = dict_keys fu"
    and pos: "\<forall>k n. map_of fr k = Some n \<longrightarrow> 1 \<le> n"
    by (auto simp: stats_inv_def)
  have dfu: "distinct (map fst ?fu)" using dk by (simp add: dict_keys_def distinct_map_filter)
  have k1: "dict_keys ?avg = dict_keys ?fu" and k2: "dict_keys ?fr = dict_keys ?fu"
    by (simp_all add: dict_keys_def comp_def case_prod_unfold)
  have each: "\<exists>f n. dict_get ?fu t = Inr f \<and> dict_get ?fr t = Inr n \<and> 1 \<le> n \<and> thresh \<le> f
           \<and> dict_get ?avg t = Inr (f div n) \<and> py_floordiv f n = Inr (f div n)"
    if t: "t \<in> set (dict_keys ?fu)" for t
  proof -
    from t obtain f where mem: "(t, f) \<in> set ?fu" by (auto simp: dict_keys_def)
    then have ge: "thresh \<le> f" and "(t, f) \<in> set fu" by auto
    then have "t \<in> set (dict_keys fr)" unfolding same by (force simp: dict_keys_def)
    from dict_get_in_keys [OF this] obtain n where n: "map_of fr t = Some n" by blast
    with pos have n1: "1 \<le> n" by blast
    have "map_of ?fu t = Some f" using dfu mem by simp
    moreover have "map_of ?fr t = Some n"
    proof (rule map_of_is_SomeI)
      show "distinct (map fst ?fr)" using dfu k2 by (simp only: dict_keys_def)
      show "(t, n) \<in> set ?fr" using mem n by force
    qed
    moreover have "map_of ?avg t = Some (f div n)"
    proof (rule map_of_is_SomeI)
      show "distinct (map fst ?avg)" using dfu k1 by (simp only: dict_keys_def)
      show "(t, f div n) \<in> set ?avg" using mem n by force
    qed
    ultimately show ?thesis using n1 ge by (auto simp: dict_get_Inr_iff py_floordiv_def)
  qed
  show ?thesis
    by (intro exI [of _ ?avg] exI [of _ ?fu] exI [of _ ?fr] conjI ballI)
      (use run k1 k2 dfu each in \<open>simp_all add: dict_keys_def\<close>)
qed

text \<open>The theorem on a table of two rows with threshold 6: \<open>gamma\<close> is filtered out
  and \<open>15 // 2 = 7\<close>.\<close>

theorem generate_data_same_keys_and_average_witness:
  "generate_data env0 [(''alpha beta'', 10), (''alpha gamma'', 5)] 6
     = Inr ([(''alpha'', 7), (''beta'', 10)], [(''alpha'', 15), (''beta'', 10)],
            [(''alpha'', 2), (''beta'', 1)])
   \<and> dict_keys [(''alpha'', 15::int), (''beta'', 10)] = [''alpha'', ''beta'']
   \<and> (15::int) div 2 = 7"
  using generate_data_same_keys_and_average [of env0 "[(''alpha beta'', 10), (''alpha gamma'', 5)]" 6]
  by (simp add: generate_data_example dict_keys_def)

text \<open>
  Claim C7. Raising the threshold never adds a key: for \<open>t1 \<le> t2\<close> the keys of each of
  the three dictionaries at \<open>t2\<close> are among the keys at \<open>t1\<close>.
\<close>

theorem generate_data_threshold_monotone:
  assumes "t1 \<le> t2"
  shows "\<exists>r1 r2. generate_data env df t1 = Inr r1 \<and> generate_data env df t2 = Inr r2
     \<and> set (dict_keys (fst r2)) \<subseteq> set (dict_keys (fst r1))
     \<and> set (dict_keys (fst (snd r2))) \<subseteq> set (dict_keys (fst (snd r1)))
     \<and> set (dict_keys (snd (snd r2))) \<subseteq> set (dict_keys (snd (snd r1)))"
proof -
  from count_rows_total obtain fr fu where
    rows: "count_rows env df [] [] = Inr (fr, fu)" and inv: "stats_inv fr fu" by blast
  have sub: "set (map fst (filter (\<lambda>(k, f). t2 \<le> f) fu))
               \<subseteq> set (map fst (filter (\<lambda>(k, f). t1 \<le> f) fu))"
    using assms by force
  have m: "map fst (map (\<lambda>(k, f). (k, g k f)) xs) = map fst xs"
    for g :: "string \<Rightarrow> int \<Rightarrow> int" and xs
    by (induction xs) auto
  from sub show ?thesis
    by (simp add: generate_data_closed_form [OF rows inv] dict_keys_def m
          del: map_map set_map set_filter)
qed

text \<open>The theorem on the same table with thresholds 0 and 6.\<close>

theorem generate_data_threshold_monotone_witness:
  "(0::int) \<le> 6
   \<and> set (dict_keys [(''alpha'', 7::int), (''beta'', 10)])
       \<subseteq> set (dict_keys [(''alpha'', 7::int), (''beta'', 10), (''gamma'', 5)])"
proof -
  have le: "(0::int) \<le> 6" by simp
  from generate_data_threshold_monotone [OF le, of env0 "[(''alpha beta'', 10), (''alpha gamma'', 5)]"]
  show ?thesis by (simp add: generate_data_example generate_data_example_all)
qed


section \<open>Properties of the graph builders\<close>

subsection \<open>Dictionary lemmas\<close>

lemma map_of_dict_modify:
  "map_of (dict_modify d k f) k' = (if k' = k then map_option f (map_of d k) else map_of d k')"
  by (induction d) (auto simp: dict_modify_def)

lemma dict_keys_dict_modify: "dict_keys (dict_modify d k f) = dict_keys d"
  by (induction d) (auto simp: dict_modify_def dict_keys_def)

lemma map_of_dict_del: "map_of (dict_del d k) k' = (if k' = k then None else map_of d k')"
  by (induction d) (auto simp: dict_del_def)

lemma dict_keys_dict_del: "dict_keys (dict_del d k) = filter (\<lambda>k'. k' \<noteq> k) (dict_keys d)"
  by (induction d) (auto simp: dict_del_def dict_keys_def)

lemma map_of_None_iff_keys: "map_of d k = None \<longleftrightarrow> k \<notin> set (dict_keys d)"
  by (simp add: dict_keys_def map_of_eq_None_iff)

lemma in_keys_iff: "k \<in> set (dict_keys d) \<longleftrightarrow> (\<exists>v. map_of d k = Some v)"
  using map_of_None_iff_keys [of d k] by auto

lemma dict_has_iff: "dict_has d k \<longleftrightarrow> map_of d k \<noteq> None"
  by (simp add: dict_has_def map_of_None_iff_keys)

subsection \<open>Well-formed graphs under the construction steps\<close>

lemma wf_empty_graph: "wf_graph empty_graph"
  by (simp add: wf_graph_def empty_graph_def dict_keys_def weight_of_def)

lemma weight_of_Some_keys:
  "weight_of G u v = Some w \<Longrightarrow> u \<in> set (dict_keys (g_adj G))"
  by (auto simp: weight_of_def in_keys_iff split: option.splits)

lemma node_keys_add_node:
  "dict_keys (g_node (add_node G n a)) =
     (if n \<in> set (dict_keys (g_node G)) then dict_keys (g_node G) else dict_keys (g_node G) @ [n])"
  by (simp add: add_node_def dict_keys_dict_set dict_has_def)

lemma adj_keys_add_node:
  "dict_keys (g_node G) = dict_keys (g_adj G) \<Longrightarrow>
   dict_keys (g_adj (add_node G n a)) =
     (if n \<in> set (dict_keys (g_adj G)) then dict_keys (g_adj G) else dict_keys (g_adj G) @ [n])"
  by (simp add: add_node_def dict_keys_dict_set dict_has_def)

lemma adj_keys_add_node_sub:
  assumes "wf_graph G"
  shows "set (dict_keys (g_adj G)) \<union> {n} \<subseteq> set (dict_keys (g_adj (add_node G n a)))"
proof -
  from assms have "dict_keys (g_node G) = dict_keys (g_adj G)" unfolding wf_graph_def by blast
  then show ?thesis by (auto simp: adj_keys_add_node)
qed

lemma wf_graph_parts:
  assumes "wf_graph G"
  shows "dict_keys (g_node G) = dict_keys (g_adj G)"
    and "distinct (dict_keys (g_adj G))"
    and "\<And>n nbrs. map_of (g_adj G) n = Some nbrs \<Longrightarrow> distinct (dict_keys nbrs)"
    and "\<And>a b c. weight_of G a b = Some c \<Longrightarrow> weight_of G b a = Some c"
  using assms unfolding wf_graph_def by blast+

lemma wf_add_node:
  assumes wf: "wf_graph G"
  shows "wf_graph (add_node G n a)"
proof (cases "dict_has (g_node G) n")
  case True
  then have adj: "g_adj (add_node G n a) = g_adj G"
    and nodes: "dict_keys (g_node (add_node G n a)) = dict_keys (g_node G)"
    by (simp_all add: add_node_def dict_keys_dict_set dict_has_def)
  have w: "weight_of (add_node G n a) u v = weight_of G u v" for u v
    by (simp add: weight_of_def adj)
  show ?thesis
    unfolding wf_graph_def w adj nodes
    using wf unfolding wf_graph_def .
next
  case False
  note parts = wf_graph_parts [OF wf]
  from False parts(1) have notin: "n \<notin> set (dict_keys (g_adj G))"
    by (simp add: dict_has_def)
  have adj: "g_adj (add_node G n a) = dict_set (g_adj G) n []"
    using False by (simp add: add_node_def)
  have w: "weight_of (add_node G n a) u v = (if u = n then None else weight_of G u v)" for u v
    by (simp add: adj weight_of_def map_of_dict_set)
  show ?thesis
    unfolding wf_graph_def
  proof (intro conjI allI impI)
    show "dict_keys (g_node (add_node G n a)) = dict_keys (g_adj (add_node G n a))"
      using parts(1) False by (simp add: add_node_def dict_keys_dict_set dict_has_def)
    show "distinct (dict_keys (g_adj (add_node G n a)))"
      using parts(2) notin by (simp add: adj dict_keys_dict_set)
    show "distinct (dict_keys nbrs)" if "map_of (g_adj (add_node G n a)) m = Some nbrs" for m nbrs
    proof (cases "m = n")
      case True
      with that show ?thesis by (simp add: adj map_of_dict_set dict_keys_def)
    next
      case False
      with that have "map_of (g_adj G) m = Some nbrs" by (simp add: adj map_of_dict_set)
      then show ?thesis by (rule parts(3))
    qed
    show "weight_of (add_node G n a) v u = Some w"
      if "weight_of (add_node G n a) u v = Some w" for u v w
    proof -
      from that have un: "u \<noteq> n" and old: "weight_of G u v = Some w"
        by (simp_all add: w split: if_splits)
      from old have swapped: "weight_of G v u = Some w" by (rule parts(4))
      from weight_of_Some_keys [OF swapped] notin have "v \<noteq> n" by auto
      with swapped show ?thesis by (simp add: w)
    qed
  qed
qed

lemma map_of_put_weight:
  assumes nu: "map_of (g_adj G) u = Some nu" and nv: "map_of (g_adj G) v = Some nv"
  shows "map_of (g_adj (put_weight G u v w)) a =
           (if a = v then Some (dict_set (if u = v then dict_set nv v w else nv) u w)
            else if a = u then Some (dict_set nu v w)
            else map_of (g_adj G) a)"
proof (cases "a = v")
  case True
  show ?thesis
  proof (cases "u = v")
    case True
    with \<open>a = v\<close> nu nv show ?thesis
      by (simp add: put_weight_def map_of_dict_modify)
  next
    case False
    with \<open>a = v\<close> nu nv show ?thesis
      by (simp add: put_weight_def map_of_dict_modify)
  qed
next
  case False
  with nu nv show ?thesis
    by (simp add: put_weight_def map_of_dict_modify)
qed

lemma weight_of_put_weight:
  assumes "u \<in> set (dict_keys (g_adj G))" and "v \<in> set (dict_keys (g_adj G))"
  shows "weight_of (put_weight G u v w) a b =
           (if (a = u \<and> b = v) \<or> (a = v \<and> b = u) then Some w else weight_of G a b)"
proof -
  from assms obtain nu nv where nu: "map_of (g_adj G) u = Some nu" and nv: "map_of (g_adj G) v = Some nv"
    by (auto simp: in_keys_iff)
  note m = map_of_put_weight [OF nu nv, of w a]
  show ?thesis
  proof (cases "a = v")
    case True
    show ?thesis
    proof (cases "u = v")
      case True
      with \<open>a = v\<close> nu nv m show ?thesis
        by (simp add: weight_of_def map_of_dict_set)
    next
      case False
      with \<open>a = v\<close> nu nv m show ?thesis
        by (simp add: weight_of_def map_of_dict_set)
    qed
  next
    case False
    show ?thesis
    proof (cases "a = u")
      case True
      with \<open>a \<noteq> v\<close> nu nv m show ?thesis
        by (simp add: weight_of_def map_of_dict_set)
    next
      case False
      with \<open>a \<noteq> v\<close> nu nv m show ?thesis
        by (simp add: weight_of_def)
    qed
  qed
qed

lemma adj_keys_put_weight [simp]:
  "dict_keys (g_adj (put_weight G u v w)) = dict_keys (g_adj G)"
  by (simp add: put_weight_def dict_keys_dict_modify)

lemma g_node_put_weight [simp]: "g_node (put_weight G u v w) = g_node G"
  by (simp add: put_weight_def)

lemma wf_put_weight:
  assumes wf: "wf_graph G"
    and u: "u \<in> set (dict_keys (g_adj G))" and v: "v \<in> set (dict_keys (g_adj G))"
  shows "wf_graph (put_weight G u v w)"
proof -
  note parts = wf_graph_parts [OF wf]
  note keys = parts(1) and dist = parts(2) and dn = parts(3) and sym = parts(4)
  from u v obtain nu nv where nu: "map_of (g_adj G) u = Some nu" and nv: "map_of (g_adj G) v = Some nv"
    by (auto simp: in_keys_iff)
  have d: "distinct (dict_keys x) \<Longrightarrow> distinct (dict_keys (dict_set x k y))"
    for x :: "(string, int) dict" and k y
    by (rule distinct_dict_set)
  show ?thesis
    unfolding wf_graph_def
  proof (intro conjI allI impI)
    show "dict_keys (g_node (put_weight G u v w)) = dict_keys (g_adj (put_weight G u v w))"
      using keys by simp
    show "distinct (dict_keys (g_adj (put_weight G u v w)))"
      using dist by simp
    show "distinct (dict_keys nbrs)" if "map_of (g_adj (put_weight G u v w)) m = Some nbrs" for m nbrs
    proof -
      note mm = map_of_put_weight [OF nu nv, of w m]
      consider "m = v" | "m \<noteq> v" "m = u" | "m \<noteq> v" "m \<noteq> u" by blast
      then show ?thesis
      proof cases
        case 1
        with that mm have "nbrs = dict_set (if u = v then dict_set nv v w else nv) u w" by simp
        then show ?thesis using dn [OF nv] by (simp add: d)
      next
        case 2
        with that mm have "nbrs = dict_set nu v w" by simp
        then show ?thesis using dn [OF nu] by (simp add: d)
      next
        case 3
        with that mm have "map_of (g_adj G) m = Some nbrs" by simp
        then show ?thesis by (rule dn)
      qed
    qed
    show "weight_of (put_weight G u v w) b a = Some c"
      if "weight_of (put_weight G u v w) a b = Some c" for a b c
    proof (cases "(a = u \<and> b = v) \<or> (a = v \<and> b = u)")
      case True
      with that have "c = w" by (simp add: weight_of_put_weight [OF u v])
      with True show ?thesis by (auto simp: weight_of_put_weight [OF u v])
    next
      case False
      with that have "weight_of G a b = Some c" by (simp add: weight_of_put_weight [OF u v])
      then have "weight_of G b a = Some c" by (rule sym)
      with False show ?thesis by (auto simp: weight_of_put_weight [OF u v])
    qed
  qed
qed

lemma wf_bump_edge:
  assumes "wf_graph G" "u \<in> set (dict_keys (g_adj G))" "v \<in> set (dict_keys (g_adj G))"
  shows "wf_graph (bump_edge G u v)"
  using assms by (simp add: bump_edge_def wf_put_weight split: option.splits)

lemma adj_keys_bump_edge [simp]: "dict_keys (g_adj (bump_edge G u v)) = dict_keys (g_adj G)"
  by (simp add: bump_edge_def split: option.splits)

lemma g_node_bump_edge [simp]: "g_node (bump_edge G u v) = g_node G"
  by (simp add: bump_edge_def split: option.splits)

lemma wf_fold_bump:
  "wf_graph G \<Longrightarrow> u \<in> set (dict_keys (g_adj G)) \<Longrightarrow> set ts \<subseteq> set (dict_keys (g_adj G)) \<Longrightarrow>
   wf_graph (fold (\<lambda>t G'. bump_edge G' u t) ts G)
   \<and> dict_keys (g_adj (fold (\<lambda>t G'. bump_edge G' u t) ts G)) = dict_keys (g_adj G)"
  by (induction ts arbitrary: G) (simp_all add: wf_bump_edge)

lemma wf_add_nodes_loop:
  "add_nodes_loop stats toks G = Inr G' \<Longrightarrow> wf_graph G \<Longrightarrow>
   wf_graph G' \<and> set (dict_keys (g_adj G)) \<union> set toks \<subseteq> set (dict_keys (g_adj G'))"
proof (induction toks arbitrary: G)
  case Nil
  then show ?case by simp
next
  case (Cons t toks)
  from Cons.prems(1) obtain a where a: "node_attrs_of stats t = Inr a"
    and rest: "add_nodes_loop stats toks (add_node G t a) = Inr G'"
    by (auto split: sum.splits)
  have wf1: "wf_graph (add_node G t a)" using Cons.prems(2) by (rule wf_add_node)
  have "set (dict_keys (g_adj G)) \<union> {t} \<subseteq> set (dict_keys (g_adj (add_node G t a)))"
    using Cons.prems(2) by (rule adj_keys_add_node_sub)
  with Cons.IH [OF rest wf1] show ?case by auto
qed

lemma wf_add_edges_loop:
  "add_edges_loop src targ G = Inr G' \<Longrightarrow> wf_graph G \<Longrightarrow>
   set src \<subseteq> set (dict_keys (g_adj G)) \<Longrightarrow> set targ \<subseteq> set (dict_keys (g_adj G)) \<Longrightarrow>
   wf_graph G' \<and> dict_keys (g_adj G') = dict_keys (g_adj G)"
proof (induction src arbitrary: targ G)
  case Nil
  then show ?case by simp
next
  case (Cons s src)
  from Cons.prems(1) obtain temp where temp: "list_remove targ s = Inr temp"
    and rest: "add_edges_loop src temp (fold (\<lambda>t G'. bump_edge G' s t) temp G) = Inr G'"
    by (auto split: sum.splits)
  from temp have sub: "set temp \<subseteq> set targ"
    using set_remove1_subset [of s targ] by (auto simp: list_remove_def split: if_splits)
  let ?G1 = "fold (\<lambda>t G'. bump_edge G' s t) temp G"
  have s: "s \<in> set (dict_keys (g_adj G))" using Cons.prems(3) by simp
  have t: "set temp \<subseteq> set (dict_keys (g_adj G))" using sub Cons.prems(4) by auto
  from wf_fold_bump [OF Cons.prems(2) s t]
  have wf1: "wf_graph ?G1" and k1: "dict_keys (g_adj ?G1) = dict_keys (g_adj G)" by simp_all
  from Cons.IH [OF rest wf1] Cons.prems(3) t k1 show ?case by simp
qed

lemma wf_all_titles_loop:
  "all_titles_loop env stats titles G = Inr G' \<Longrightarrow> wf_graph G \<Longrightarrow> wf_graph G'"
proof (induction titles arbitrary: G)
  case Nil
  then show ?case by simp
next
  case (Cons title titles)
  let ?toks = "tokenize_and_stem env title"
  from Cons.prems(1) obtain G1 G2 where
    n: "add_nodes_loop stats ?toks G = Inr G1" and
    e: "add_edges_loop ?toks ?toks G1 = Inr G2" and
    rest: "all_titles_loop env stats titles G2 = Inr G'"
    by (auto simp: Let_def split: sum.splits)
  from wf_add_nodes_loop [OF n Cons.prems(2)]
  have wf1: "wf_graph G1" and sub: "set ?toks \<subseteq> set (dict_keys (g_adj G1))" by auto
  from wf_add_edges_loop [OF e wf1 sub sub] have "wf_graph G2" by simp
  from Cons.IH [OF rest this] show ?case .
qed

lemma wf_word_targets_loop:
  "word_targets_loop stats word targs G = Inr G' \<Longrightarrow> wf_graph G \<Longrightarrow>
   word \<in> set (dict_keys (g_adj G)) \<Longrightarrow> wf_graph G'"
proof (induction targs arbitrary: G)
  case Nil
  then show ?case by simp
next
  case (Cons t targs)
  from Cons.prems(1) obtain a where a: "node_attrs_of stats t = Inr a"
    and rest: "word_targets_loop stats word targs (bump_edge (add_node G t a) word t) = Inr G'"
    by (auto split: sum.splits)
  have wf1: "wf_graph (add_node G t a)" using Cons.prems(2) by (rule wf_add_node)
  have keys: "set (dict_keys (g_adj G)) \<union> {t} \<subseteq> set (dict_keys (g_adj (add_node G t a)))"
    using Cons.prems(2) by (rule adj_keys_add_node_sub)
  with Cons.prems(3) have w: "word \<in> set (dict_keys (g_adj (add_node G t a)))"
    and t: "t \<in> set (dict_keys (g_adj (add_node G t a)))" by auto
  have "wf_graph (bump_edge (add_node G t a) word t)" using wf1 w t by (rule wf_bump_edge)
  from Cons.IH [OF rest this] w show ?case by simp
qed

lemma wf_word_titles_loop:
  "word_titles_loop env stats word titles G = Inr G' \<Longrightarrow> wf_graph G \<Longrightarrow> wf_graph G'"
proof (induction titles arbitrary: G)
  case Nil
  then show ?case by simp
next
  case (Cons title titles)
  let ?toks = "tokenize_and_stem env title"
  show ?case
  proof (cases "word \<in> set ?toks")
    case False
    with Cons.prems(1) have "word_titles_loop env stats word titles G = Inr G'"
      by (simp add: Let_def)
    from Cons.IH [OF this Cons.prems(2)] show ?thesis .
  next
    case True
    with Cons.prems(1) obtain a G1 where a: "node_attrs_of stats word = Inr a"
      and t: "word_targets_loop stats word (filter (\<lambda>token. \<not> word = token) ?toks)
                (add_node G word a) = Inr G1"
      and rest: "word_titles_loop env stats word titles G1 = Inr G'"
      by (auto simp: Let_def split: sum.splits)
    have wf1: "wf_graph (add_node G word a)" using Cons.prems(2) by (rule wf_add_node)
    have "word \<in> set (dict_keys (g_adj (add_node G word a)))"
      using adj_keys_add_node_sub [OF Cons.prems(2), of word a] by simp
    from wf_word_targets_loop [OF t wf1 this] have "wf_graph G1" .
    from Cons.IH [OF rest this] show ?thesis .
  qed
qed

subsection \<open>The degree attribute\<close>

lemma total_deg_loop_map_of:
  "total_deg_loop L nodes = Inr nodes' \<Longrightarrow> distinct (map fst L) \<Longrightarrow>
   dict_keys nodes' = dict_keys nodes
   \<and> (\<forall>n. map_of nodes' n =
          (case map_of L n of
             None \<Rightarrow> map_of nodes n
           | Some d \<Rightarrow> map_option (\<lambda>a. a\<lparr>attr_total_deg := d\<rparr>) (map_of nodes n)))"
proof (induction L arbitrary: nodes)
  case Nil
  then show ?case by simp
next
  case (Cons nd L)
  obtain node deg where nd: "nd = (node, deg)" by (cases nd)
  from Cons.prems(1) obtain attrs where g: "dict_get nodes node = Inr attrs"
    and rest: "total_deg_loop L (dict_set nodes node (attrs\<lparr>attr_total_deg := deg\<rparr>)) = Inr nodes'"
    by (auto simp: nd split: sum.splits)
  from g have m: "map_of nodes node = Some attrs" by (simp add: dict_get_Inr_iff)
  then have inkeys: "node \<in> set (dict_keys nodes)" by (auto simp: in_keys_iff)
  from Cons.prems(2) have dL: "distinct (map fst L)" and notin: "node \<notin> fst ` set L"
    by (simp_all add: nd)
  from notin have none: "map_of L node = None" by (simp add: map_of_eq_None_iff)
  from Cons.IH [OF rest dL]
  have k: "dict_keys nodes' = dict_keys (dict_set nodes node (attrs\<lparr>attr_total_deg := deg\<rparr>))"
    and v: "\<And>n. map_of nodes' n =
          (case map_of L n of
             None \<Rightarrow> map_of (dict_set nodes node (attrs\<lparr>attr_total_deg := deg\<rparr>)) n
           | Some d \<Rightarrow> map_option (\<lambda>a. a\<lparr>attr_total_deg := d\<rparr>)
                        (map_of (dict_set nodes node (attrs\<lparr>attr_total_deg := deg\<rparr>)) n))"
    by blast+
  show ?case
  proof (intro conjI allI)
    show "dict_keys nodes' = dict_keys nodes" using k inkeys by (simp add: dict_keys_dict_set)
    fix n
    show "map_of nodes' n =
          (case map_of (nd # L) n of
             None \<Rightarrow> map_of nodes n
           | Some d \<Rightarrow> map_option (\<lambda>a. a\<lparr>attr_total_deg := d\<rparr>) (map_of nodes n))"
    proof (cases "n = node")
      case True
      then show ?thesis using v [of n] none m by (simp add: nd map_of_dict_set)
    next
      case False
      then show ?thesis using v [of n] by (simp add: nd map_of_dict_set split: option.splits)
    qed
  qed
qed

lemma map_of_degree_view:
  "map_of (degree_view G) n = map_option (degree_of n) (map_of (g_adj G) n)"
proof -
  have "map_of (map (\<lambda>(n, nbrs). (n, degree_of n nbrs)) adj) n
          = map_option (degree_of n) (map_of adj n)" for adj :: "(string, (string, int) dict) dict"
    by (induction adj) auto
  then show ?thesis by (simp add: degree_view_def)
qed

lemma fst_degree_view: "map fst (degree_view G) = dict_keys (g_adj G)"
  by (simp add: degree_view_def dict_keys_def comp_def case_prod_unfold)

lemma assign_total_deg_result:
  assumes run: "assign_total_deg G = Inr G1" and wf: "wf_graph G"
  shows "g_adj G1 = g_adj G"
    and "dict_keys (g_node G1) = dict_keys (g_node G)"
    and "\<And>n a. (n, a) \<in> set (g_node G1) \<Longrightarrow> attr_total_deg a = degree G n"
    and "wf_graph G1"
proof -
  note parts = wf_graph_parts [OF wf]
  from run obtain nodes where loop: "total_deg_loop (degree_view G) (g_node G) = Inr nodes"
    and G1: "G1 = G\<lparr>g_node := nodes\<rparr>"
    by (auto simp: assign_total_deg_def split: sum.splits)
  have d: "distinct (map fst (degree_view G))" using parts(2) by (simp add: fst_degree_view)
  from total_deg_loop_map_of [OF loop d]
  have k: "dict_keys nodes = dict_keys (g_node G)"
    and v: "\<And>n. map_of nodes n =
          (case map_of (degree_view G) n of
             None \<Rightarrow> map_of (g_node G) n
           | Some d \<Rightarrow> map_option (\<lambda>a. a\<lparr>attr_total_deg := d\<rparr>) (map_of (g_node G) n))"
    by blast+
  show adj: "g_adj G1 = g_adj G" by (simp add: G1)
  show keys: "dict_keys (g_node G1) = dict_keys (g_node G)" by (simp add: G1 k)
  show "attr_total_deg a = degree G n" if "(n, a) \<in> set (g_node G1)" for n a
  proof -
    have dn: "distinct (map fst nodes)" using k parts(1,2) by (simp add: dict_keys_def)
    from that have "map_of nodes n = Some a" using dn by (simp add: G1)
    moreover from that have "n \<in> set (dict_keys (g_node G1))"
      by (force simp: dict_keys_def)
    then have "n \<in> set (dict_keys (g_adj G))"
      using keys parts(1) by simp
    then obtain nbrs where nb: "map_of (g_adj G) n = Some nbrs" by (auto simp: in_keys_iff)
    ultimately have "map_option (\<lambda>a. a\<lparr>attr_total_deg := degree_of n nbrs\<rparr>) (map_of (g_node G) n) = Some a"
      using v [of n] by (simp add: map_of_degree_view)
    then have "attr_total_deg a = degree_of n nbrs" by auto
    with nb show ?thesis by (simp add: degree_def)
  qed
  have w: "weight_of G1 u v = weight_of G u v" for u v by (simp add: weight_of_def adj)
  show "wf_graph G1"
    unfolding wf_graph_def w adj keys using wf unfolding wf_graph_def .
qed

lemma g_node_remove_edge [simp]: "g_node (remove_edge e G) = g_node G"
  by (cases e) (simp add: remove_edge_def Let_def)

lemma g_node_remove_edges_from [simp]: "g_node (remove_edges_from G es) = g_node G"
  unfolding remove_edges_from_def by (induction es arbitrary: G) simp_all

lemma g_node_remove_node: "set (g_node (remove_node n G)) \<subseteq> set (g_node G)"
  by (auto simp: remove_node_def dict_del_def split: option.splits)

lemma g_node_remove_nodes_from: "set (g_node (remove_nodes_from G ns)) \<subseteq> set (g_node G)"
  unfolding remove_nodes_from_def
proof (induction ns arbitrary: G)
  case Nil
  show ?case by simp
next
  case (Cons n ns)
  have "set (g_node (fold remove_node ns (remove_node n G))) \<subseteq> set (g_node (remove_node n G))"
    by (rule Cons.IH)
  with g_node_remove_node [of n G] show ?case by auto
qed

lemma g_node_prune_top_n:
  "prune_top_n G top_n = Inr Gf \<Longrightarrow> set (g_node Gf) \<subseteq> set (g_node G)"
  using g_node_remove_nodes_from
  by (fastforce simp: prune_top_n_def Let_def split: sum.splits)

lemma all_abc_2: "generate_graph_data_all env0 df_abc 2 = Inr graph_ab"
  by code_simp

lemma word_abc_2: "generate_graph_data_word env0 df_abc ''a'' 2 = Inr graph_ab"
  by code_simp

text \<open>
  Claim C1, as stated: after the pruning every surviving node's \<open>total_deg\<close> is its degree
  in the final graph. It is not: both views return \<open>graph_ab\<close> for \<open>df_abc\<close>, where
  \<open>a\<close> carries \<open>total_deg = 2\<close> and has one edge left.
\<close>

theorem total_deg_recomputed_counterexample:
  "generate_graph_data_all env0 df_abc 2 = Inr graph_ab
   \<and> generate_graph_data_word env0 df_abc ''a'' 2 = Inr graph_ab
   \<and> map (\<lambda>(n, a). (n, attr_total_deg a, degree graph_ab n)) (g_node graph_ab)
       = [(''a'', 2, 1), (''b'', 1, 1)]"
  by (simp add: all_abc_2 word_abc_2) (simp add: graph_ab_def degree_def degree_of_def dict_has_def dict_keys_def)

text \<open>
  Claim C1, amended. The source assigns \<open>total_deg\<close> before it prunes and does not touch
  it afterwards: in the global and in the ego view the \<open>total_deg\<close> of every surviving
  node is that node's degree in the graph as it stood before the pruning.
\<close>

theorem total_deg_is_degree_before_pruning:
  "(generate_graph_data_all env df top_n = Inr Gf \<longrightarrow>
      (\<exists>stats G0. generate_data env df 0 = Inr stats
         \<and> all_titles_loop env stats (map fst df) empty_graph = Inr G0
         \<and> (\<forall>(n, a)\<in>set (g_node Gf). attr_total_deg a = degree G0 n)))
   \<and> (generate_graph_data_word env df word top_n = Inr Gf \<longrightarrow>
      (\<exists>stats G0. generate_data env df 0 = Inr stats
         \<and> word_titles_loop env stats word (map fst df) empty_graph = Inr G0
         \<and> (\<forall>(n, a)\<in>set (g_node Gf). attr_total_deg a = degree G0 n)))"
proof (intro conjI impI)
  assume run: "generate_graph_data_all env df top_n = Inr Gf"
  then obtain stats G0 G1 where s: "generate_data env df 0 = Inr stats"
    and b: "all_titles_loop env stats (map fst df) empty_graph = Inr G0"
    and a: "assign_total_deg G0 = Inr G1" and p: "prune_top_n G1 top_n = Inr Gf"
    by (auto simp: generate_graph_data_all_def split: sum.splits)
  have wf: "wf_graph G0" by (rule wf_all_titles_loop [OF b wf_empty_graph])
  have "attr_total_deg a = degree G0 n" if "(n, a) \<in> set (g_node Gf)" for n a
    using that g_node_prune_top_n [OF p] assign_total_deg_result(3) [OF a wf] by blast
  with s b show "\<exists>stats G0. generate_data env df 0 = Inr stats
         \<and> all_titles_loop env stats (map fst df) empty_graph = Inr G0
         \<and> (\<forall>(n, a)\<in>set (g_node Gf). attr_total_deg a = degree G0 n)"
    by blast
next
  assume run: "generate_graph_data_word env df word top_n = Inr Gf"
  then obtain stats G0 G1 where s: "generate_data env df 0 = Inr stats"
    and b: "word_titles_loop env stats word (map fst df) empty_graph = Inr G0"
    and a: "assign_total_deg G0 = Inr G1" and p: "prune_top_n G1 top_n = Inr Gf"
    by (auto simp: generate_graph_data_word_def split: sum.splits)
  have wf: "wf_graph G0" by (rule wf_word_titles_loop [OF b wf_empty_graph])
  have "attr_total_deg a = degree G0 n" if "(n, a) \<in> set (g_node Gf)" for n a
    using that g_node_prune_top_n [OF p] assign_total_deg_result(3) [OF a wf] by blast
  with s b show "\<exists>stats G0. generate_data env df 0 = Inr stats
         \<and> word_titles_loop env stats word (map fst df) empty_graph = Inr G0
         \<and> (\<forall>(n, a)\<in>set (g_node Gf). attr_total_deg a = degree G0 n)"
    by blast
qed

text \<open>The theorem on \<open>df_abc\<close>: before the pruning \<open>a\<close> has degree 2 and \<open>b\<close> degree 1.\<close>

theorem total_deg_is_degree_before_pruning_witness:
  "generate_graph_data_all env0 df_abc 2 = Inr graph_ab
   \<and> generate_graph_data_word env0 df_abc ''a'' 2 = Inr graph_ab
   \<and> (\<exists>stats G0. generate_data env0 df_abc 0 = Inr stats
         \<and> all_titles_loop env0 stats (map fst df_abc) empty_graph = Inr G0
         \<and> degree G0 ''a'' = 2 \<and> degree G0 ''b'' = 1)
   \<and> (\<exists>stats G0. generate_data env0 df_abc 0 = Inr stats
         \<and> word_titles_loop env0 stats ''a'' (map fst df_abc) empty_graph = Inr G0
         \<and> degree G0 ''a'' = 2 \<and> degree G0 ''b'' = 1)"
  using total_deg_is_degree_before_pruning [of env0 df_abc 2 graph_ab "''a''"]
  by (simp add: all_abc_2 word_abc_2) (simp add: graph_ab_def)

subsection \<open>Cutting neighbour lists down\<close>

lemma dict_keys_filter: "dict_keys (filter (\<lambda>(x, w). P x) d) = filter P (dict_keys d)"
  by (induction d) (auto simp: dict_keys_def)

lemma map_of_filter_key: "map_of (filter (\<lambda>(x, w). P x) d) k = (if P k then map_of d k else None)"
  by (induction d) auto

lemma dict_keys_restrict_adj [simp]: "dict_keys (restrict_adj Q adj) = dict_keys adj"
  by (induction adj) (auto simp: restrict_adj_def dict_keys_def)

lemma map_of_restrict_adj:
  "map_of (restrict_adj Q adj) n = map_option (filter (\<lambda>(x, w). Q n x)) (map_of adj n)"
  by (induction adj) (auto simp: restrict_adj_def)

lemma restrict_adj_comp:
  "restrict_adj Q2 (restrict_adj Q1 adj) = restrict_adj (\<lambda>a b. Q1 a b \<and> Q2 a b) adj"
  by (induction adj) (auto simp: restrict_adj_def intro: filter_cong)

lemma restrict_adj_id:
  "(\<And>n nbrs x w. (n, nbrs) \<in> set adj \<Longrightarrow> (x, w) \<in> set nbrs \<Longrightarrow> Q n x) \<Longrightarrow>
   restrict_adj Q adj = adj"
proof (induction adj)
  case Nil
  show ?case by (simp add: restrict_adj_def)
next
  case (Cons p adj)
  obtain n nbrs where p: "p = (n, nbrs)" by (cases p)
  have "filter (\<lambda>(x, w). Q n x) nbrs = nbrs"
    using Cons.prems [of n nbrs] by (auto simp: p filter_id_conv)
  moreover have "restrict_adj Q adj = adj"
    by (rule Cons.IH) (use Cons.prems in auto)
  ultimately show ?case by (simp add: restrict_adj_def p)
qed

lemma edges_from_restrict:
  "edges_from (restrict_adj Q adj) seen = filter (\<lambda>(a, b). Q a b) (edges_from adj seen)"
proof (induction adj arbitrary: seen)
  case Nil
  show ?case by (simp add: restrict_adj_def)
next
  case (Cons p adj)
  obtain n nbrs where p: "p = (n, nbrs)" by (cases p)
  have r: "restrict_adj Q ((n, nbrs) # adj) = (n, filter (\<lambda>(x, w). Q n x) nbrs) # restrict_adj Q adj"
    by (simp add: restrict_adj_def)
  have comm: "map (\<lambda>nbr. (n, nbr)) (filter (\<lambda>nbr. nbr \<notin> set seen) (filter (Q n) xs))
          = filter (\<lambda>(a, b). Q a b) (map (\<lambda>nbr. (n, nbr)) (filter (\<lambda>nbr. nbr \<notin> set seen) xs))"
    for xs
    by (induction xs) auto
  show ?case
    unfolding p r edges_from.simps dict_keys_filter comm Cons.IH filter_append ..
qed

lemma weight_of_restrict:
  "weight_of (G\<lparr>g_adj := restrict_adj Q (g_adj G)\<rparr>) a b = (if Q a b then weight_of G a b else None)"
  by (cases "map_of (g_adj G) a") (simp_all add: weight_of_def map_of_restrict_adj map_of_filter_key)

lemma wf_restrict:
  assumes wf: "wf_graph G" and symQ: "\<And>a b. Q a b = Q b a"
  shows "wf_graph (G\<lparr>g_adj := restrict_adj Q (g_adj G)\<rparr>)"
proof -
  note parts = wf_graph_parts [OF wf]
  show ?thesis
    unfolding wf_graph_def
  proof (intro conjI allI impI)
    show "dict_keys (g_node (G\<lparr>g_adj := restrict_adj Q (g_adj G)\<rparr>))
            = dict_keys (g_adj (G\<lparr>g_adj := restrict_adj Q (g_adj G)\<rparr>))"
      using parts(1) by simp
    show "distinct (dict_keys (g_adj (G\<lparr>g_adj := restrict_adj Q (g_adj G)\<rparr>)))"
      using parts(2) by simp
    show "distinct (dict_keys nbrs)"
      if "map_of (g_adj (G\<lparr>g_adj := restrict_adj Q (g_adj G)\<rparr>)) n = Some nbrs" for n nbrs
    proof -
      from that obtain nb where nb: "map_of (g_adj G) n = Some nb"
        and eq: "nbrs = filter (\<lambda>(x, w). Q n x) nb"
        by (auto simp: map_of_restrict_adj)
      from parts(3) [OF nb] show ?thesis by (simp add: eq dict_keys_filter)
    qed
    show "weight_of (G\<lparr>g_adj := restrict_adj Q (g_adj G)\<rparr>) b a = Some c"
      if "weight_of (G\<lparr>g_adj := restrict_adj Q (g_adj G)\<rparr>) a b = Some c" for a b c
    proof -
      from that have q: "Q a b" and w: "weight_of G a b = Some c"
        by (simp_all add: weight_of_restrict split: if_splits)
      from w have "weight_of G b a = Some c" by (rule parts(4))
      moreover from q have "Q b a" by (simp add: symQ [of b a])
      ultimately show ?thesis by (simp add: weight_of_restrict)
    qed
  qed
qed

subsection \<open>Removing edges\<close>

lemma dict_modify_del_restrict:
  "dict_modify adj u (\<lambda>nbrs. dict_del nbrs v) = restrict_adj (\<lambda>n x. \<not> (n = u \<and> x = v)) adj"
  by (induction adj) (auto simp: dict_modify_def restrict_adj_def dict_del_def intro: filter_cong)

lemma mem_adj_weight:
  assumes "distinct (dict_keys adj)" "(n, nbrs) \<in> set adj" "(x, w) \<in> set nbrs"
  shows "\<exists>c. weight_of \<lparr>g_node = nodes, g_adj = adj\<rparr> n x = Some c"
proof -
  from assms(1,2) have "map_of adj n = Some nbrs" by (simp add: dict_keys_def)
  moreover from assms(3) have "x \<in> set (dict_keys nbrs)" by (force simp: dict_keys_def)
  then obtain c where "map_of nbrs x = Some c" by (auto simp: in_keys_iff)
  ultimately show ?thesis by (simp add: weight_of_def)
qed

lemma weight_of_adj_only: "g_adj G = g_adj G' \<Longrightarrow> weight_of G a b = weight_of G' a b"
  by (simp add: weight_of_def)

lemma remove_edge_restrict:
  assumes wf: "wf_graph G"
  shows "remove_edge (u, v) G
           = G\<lparr>g_adj := restrict_adj (\<lambda>a b. \<not> (a = u \<and> b = v) \<and> \<not> (a = v \<and> b = u)) (g_adj G)\<rparr>"
proof (cases "has_edge G u v")
  case True
  show ?thesis
  proof (cases "u = v")
    case True
    have "(\<lambda>a b. \<not> (a = u \<and> b = v) \<and> \<not> (a = v \<and> b = u)) = (\<lambda>n x. \<not> (n = u \<and> x = v))"
      using True by (auto simp: fun_eq_iff)
    with \<open>has_edge G u v\<close> True show ?thesis
      by (simp add: remove_edge_def dict_modify_del_restrict)
  next
    case False
    have "(\<lambda>a b. \<not> (a = u \<and> b = v) \<and> \<not> (a = v \<and> b = u))
            = (\<lambda>a b. \<not> (a = u \<and> b = v) \<and> \<not> (a = v \<and> b = u))" ..
    with \<open>has_edge G u v\<close> False show ?thesis
      by (simp add: remove_edge_def Let_def dict_modify_del_restrict restrict_adj_comp)
  qed
next
  case False
  note parts = wf_graph_parts [OF wf]
  have none: "weight_of G u v = None" using False by (simp add: has_edge_def)
  have none': "weight_of G v u = None"
  proof (rule ccontr)
    assume "weight_of G v u \<noteq> None"
    then obtain c where "weight_of G v u = Some c" by auto
    from parts(4) [OF this] none show False by simp
  qed
  have "restrict_adj (\<lambda>a b. \<not> (a = u \<and> b = v) \<and> \<not> (a = v \<and> b = u)) (g_adj G) = g_adj G"
  proof (rule restrict_adj_id)
    fix n nbrs x w assume a: "(n, nbrs) \<in> set (g_adj G)" "(x, w) \<in> set nbrs"
    from mem_adj_weight [OF parts(2) a, of "g_node G"]
    obtain c where "weight_of \<lparr>g_node = g_node G, g_adj = g_adj G\<rparr> n x = Some c" by blast
    then have c: "weight_of G n x = Some c" by (simp add: weight_of_def)
    show "\<not> (n = u \<and> x = v) \<and> \<not> (n = v \<and> x = u)"
      using c none none' by auto
  qed
  with False show ?thesis by (simp add: remove_edge_def)
qed

lemma remove_edges_from_restrict:
  "wf_graph G \<Longrightarrow>
   remove_edges_from G R
     = G\<lparr>g_adj := restrict_adj (\<lambda>a b. (a, b) \<notin> set R \<and> (b, a) \<notin> set R) (g_adj G)\<rparr>"
  unfolding remove_edges_from_def
proof (induction R arbitrary: G)
  case Nil
  have "restrict_adj (\<lambda>a b. True) (g_adj G) = g_adj G"
    by (rule restrict_adj_id) simp
  then show ?case by simp
next
  case (Cons e R)
  obtain u v where e: "e = (u, v)" by (cases e)
  let ?Q1 = "\<lambda>a b. \<not> (a = u \<and> b = v) \<and> \<not> (a = v \<and> b = u)"
  let ?G1 = "G\<lparr>g_adj := restrict_adj ?Q1 (g_adj G)\<rparr>"
  have step: "remove_edge e G = ?G1" unfolding e by (rule remove_edge_restrict [OF Cons.prems])
  have wf1: "wf_graph ?G1" by (rule wf_restrict [OF Cons.prems]) auto
  have "(\<lambda>a b. ?Q1 a b \<and> (a, b) \<notin> set R \<and> (b, a) \<notin> set R)
          = (\<lambda>a b. (a, b) \<notin> set (e # R) \<and> (b, a) \<notin> set (e # R))"
    by (auto simp: fun_eq_iff e)
  then show ?case
    using Cons.IH [OF wf1] by (simp add: step restrict_adj_comp)
qed

subsection \<open>The enumeration of the edges\<close>

lemma edges_from_mem:
  "(a, b) \<in> set (edges_from adj seen) \<Longrightarrow>
   b \<notin> set seen \<and> (\<exists>nbrs. (a, nbrs) \<in> set adj \<and> b \<in> set (dict_keys nbrs))"
proof (induction adj arbitrary: seen)
  case Nil
  then show ?case by simp
next
  case (Cons p adj)
  obtain n nbrs where p: "p = (n, nbrs)" by (cases p)
  from Cons.prems consider "a = n" "b \<in> set (dict_keys nbrs)" "b \<notin> set seen"
    | "(a, b) \<in> set (edges_from adj (n # seen))"
    by (auto simp: p)
  then show ?case
  proof cases
    case 1
    then show ?thesis by (auto simp: p)
  next
    case 2
    from Cons.IH [OF 2] show ?thesis by auto
  qed
qed

lemma edges_from_orient:
  "distinct (dict_keys adj) \<Longrightarrow> (u, v) \<in> set (edges_from adj seen) \<Longrightarrow>
   (v, u) \<in> set (edges_from adj seen) \<Longrightarrow> u = v"
proof (induction adj arbitrary: seen)
  case Nil
  then show ?case by simp
next
  case (Cons p adj)
  obtain n nbrs where p: "p = (n, nbrs)" by (cases p)
  from Cons.prems(1) have d: "distinct (dict_keys adj)" by (simp add: dict_keys_def)
  let ?E2 = "edges_from adj (n # seen)"
  from Cons.prems(2) have uv: "u = n \<or> (u, v) \<in> set ?E2" by (auto simp: p)
  from Cons.prems(3) have vu: "v = n \<or> (v, u) \<in> set ?E2" by (auto simp: p)
  have no_n: "(x, n) \<notin> set ?E2" for x using edges_from_mem [of x n adj "n # seen"] by auto
  show ?case
  proof (cases "u = n")
    case True
    with vu no_n [of v] show ?thesis by auto
  next
    case False
    with uv have in2: "(u, v) \<in> set ?E2" by simp
    show ?thesis
    proof (cases "v = n")
      case True
      with in2 no_n [of u] show ?thesis by simp
    next
      case False
      with vu have "(v, u) \<in> set ?E2" by simp
      from Cons.IH [OF d in2 this] show ?thesis .
    qed
  qed
qed



lemma wf_adj_mem:
  assumes "wf_graph G" "(n, nbrs) \<in> set (g_adj G)"
  shows "map_of (g_adj G) n = Some nbrs" "distinct (dict_keys nbrs)"
proof -
  note parts = wf_graph_parts [OF assms(1)]
  show m: "map_of (g_adj G) n = Some nbrs" using parts(2) assms(2) by (simp add: dict_keys_def)
  show "distinct (dict_keys nbrs)" by (rule parts(3) [OF m])
qed


lemma edges_orient:
  "wf_graph G \<Longrightarrow> (u, v) \<in> set (edges G) \<Longrightarrow> (v, u) \<in> set (edges G) \<Longrightarrow> u = v"
  unfolding edges_def by (rule edges_from_orient) (auto dest: wf_graph_parts(2))

lemma edges_weight:
  assumes "wf_graph G" "(u, v) \<in> set (edges G)"
  shows "\<exists>w. weight_of G u v = Some w"
proof -
  from assms(2) obtain nbrs where a: "(u, nbrs) \<in> set (g_adj G)" and b: "v \<in> set (dict_keys nbrs)"
    using edges_from_mem [of u v "g_adj G" "[]"] by (auto simp: edges_def)
  from wf_adj_mem(1) [OF assms(1) a] b show ?thesis
    by (auto simp: weight_of_def in_keys_iff)
qed

lemma edges_remove_edges_from:
  assumes wf: "wf_graph G" and sub: "set R \<subseteq> set (edges G)"
  shows "edges (remove_edges_from G R) = filter (\<lambda>e. e \<notin> set R) (edges G)"
proof -
  have "edges (remove_edges_from G R)
          = filter (\<lambda>(a, b). (a, b) \<notin> set R \<and> (b, a) \<notin> set R) (edges G)"
    by (simp add: remove_edges_from_restrict [OF wf] edges_def edges_from_restrict)
  also have "\<dots> = filter (\<lambda>e. e \<notin> set R) (edges G)"
  proof (rule filter_cong [OF refl])
    fix e assume e: "e \<in> set (edges G)"
    obtain a b where ab: "e = (a, b)" by (cases e)
    have "(b, a) \<in> set R \<Longrightarrow> (a, b) \<in> set R"
    proof -
      assume r: "(b, a) \<in> set R"
      with sub have "(b, a) \<in> set (edges G)" by auto
      from edges_orient [OF wf _ this] e ab have "a = b" by simp
      with r show ?thesis by simp
    qed
    then show "(case e of (a, b) \<Rightarrow> (a, b) \<notin> set R \<and> (b, a) \<notin> set R) = (e \<notin> set R)"
      by (auto simp: ab)
  qed
  finally show ?thesis .
qed

subsection \<open>Removing the isolated nodes\<close>

lemma degree_of_zero_iff: "degree_of n nbrs = 0 \<longleftrightarrow> nbrs = []"
  by (auto simp: degree_of_def dict_has_def dict_keys_def)

lemma isolates_eq: "isolates G = map fst (filter (\<lambda>(n, nbrs). nbrs = []) (g_adj G))"
proof -
  have "map fst (filter (\<lambda>(n, d). d = 0) (map (\<lambda>(n, nbrs). (n, degree_of n nbrs)) adj))
          = map fst (filter (\<lambda>(n, nbrs). nbrs = []) adj)"
    for adj :: "(string, (string, int) dict) dict"
    by (induction adj) (auto simp: degree_of_zero_iff)
  then show ?thesis by (simp add: isolates_def degree_view_def)
qed

lemma remove_node_isolated:
  assumes "map_of (g_adj G) n = Some []" "n \<in> set (dict_keys (g_node G))"
  shows "remove_node n G = \<lparr>g_node = dict_del (g_node G) n, g_adj = dict_del (g_adj G) n\<rparr>"
  using assms by (simp add: remove_node_def dict_has_def dict_keys_def)

lemma filter_dict_del:
  "filter (\<lambda>(k, v). k \<notin> set ns) (dict_del d n) = filter (\<lambda>(k, v). k \<notin> set (n # ns)) d"
  by (induction d) (auto simp: dict_del_def)

lemma remove_isolated_nodes:
  "distinct ns \<Longrightarrow>
   (\<And>n. n \<in> set ns \<Longrightarrow> map_of (g_adj G) n = Some [] \<and> n \<in> set (dict_keys (g_node G))) \<Longrightarrow>
   fold remove_node ns G
     = \<lparr>g_node = filter (\<lambda>(k, a). k \<notin> set ns) (g_node G),
        g_adj = filter (\<lambda>(k, nb). k \<notin> set ns) (g_adj G)\<rparr>"
proof (induction ns arbitrary: G)
  case Nil
  show ?case by simp
next
  case (Cons n ns)
  let ?G1 = "\<lparr>g_node = dict_del (g_node G) n, g_adj = dict_del (g_adj G) n\<rparr>"
  from Cons.prems(2) [of n] have step: "remove_node n G = ?G1"
    by (simp add: remove_node_isolated)
  have rest: "map_of (g_adj ?G1) m = Some [] \<and> m \<in> set (dict_keys (g_node ?G1))"
    if "m \<in> set ns" for m
  proof -
    from that Cons.prems(1) have "m \<noteq> n" by auto
    with Cons.prems(2) [of m] that show ?thesis
      by (simp add: map_of_dict_del dict_keys_dict_del)
  qed
  from Cons.prems(1) have "distinct ns" by simp
  from Cons.IH [OF this rest] show ?case
    by (simp add: step filter_dict_del)
qed

lemma edges_from_seen_set:
  "(\<And>k nb x. (k, nb) \<in> set adj \<Longrightarrow> x \<in> set (dict_keys nb) \<Longrightarrow>
      (x \<in> set seen \<longleftrightarrow> x \<in> set seen')) \<Longrightarrow>
   edges_from adj seen = edges_from adj seen'"
proof (induction adj arbitrary: seen seen')
  case Nil
  show ?case by simp
next
  case (Cons p adj)
  obtain n nbrs where p: "p = (n, nbrs)" by (cases p)
  have f: "filter (\<lambda>nbr. nbr \<notin> set seen) (dict_keys nbrs)
             = filter (\<lambda>nbr. nbr \<notin> set seen') (dict_keys nbrs)"
    by (rule filter_cong [OF refl]) (use Cons.prems [of n nbrs] in \<open>simp add: p\<close>)
  have r: "edges_from adj (n # seen) = edges_from adj (n # seen')"
    by (rule Cons.IH) (use Cons.prems in \<open>auto simp: p\<close>)
  show ?case by (simp add: p f r)
qed

lemma edges_from_drop_isolated:
  "(\<And>k nb x. (k, nb) \<in> set adj \<Longrightarrow> x \<in> set (dict_keys nb) \<Longrightarrow> (x, []) \<notin> set adj) \<Longrightarrow>
   edges_from (filter (\<lambda>(k, nb). nb \<noteq> []) adj) seen = edges_from adj seen"
proof (induction adj arbitrary: seen)
  case Nil
  show ?case by simp
next
  case (Cons p adj)
  obtain n nbrs where p: "p = (n, nbrs)" by (cases p)
  have tl: "(x, []) \<notin> set adj" if "(k, nb) \<in> set adj" "x \<in> set (dict_keys nb)" for k nb x
    using Cons.prems [of k nb x] that by (auto simp: p)
  have IH: "edges_from (filter (\<lambda>(k, nb). nb \<noteq> []) adj) s = edges_from adj s" for s
    by (rule Cons.IH) (rule tl)
  show ?case
  proof (cases "nbrs = []")
    case False
    then show ?thesis by (simp add: p IH)
  next
    case True
    have "edges_from adj (n # seen) = edges_from adj seen"
    proof (rule edges_from_seen_set)
      fix k nb x assume a: "(k, nb) \<in> set adj" "x \<in> set (dict_keys nb)"
      from Cons.prems [of k nb x] a have "x \<noteq> n" by (auto simp: p True)
      then show "(x \<in> set (n # seen)) = (x \<in> set seen)" by simp
    qed
    with True show ?thesis by (simp add: p IH dict_keys_def)
  qed
qed

lemma wf_no_isolated_neighbour:
  assumes wf: "wf_graph G" and k: "(k, nb) \<in> set (g_adj G)" and x: "x \<in> set (dict_keys nb)"
  shows "(x, []) \<notin> set (g_adj G)"
proof
  assume iso: "(x, []) \<in> set (g_adj G)"
  note parts = wf_graph_parts [OF wf]
  from wf_adj_mem(1) [OF wf k] x obtain w where "weight_of G k x = Some w"
    by (auto simp: weight_of_def in_keys_iff)
  from parts(4) [OF this] have "weight_of G x k = Some w" .
  moreover from wf_adj_mem(1) [OF wf iso] have "map_of (g_adj G) x = Some []" .
  ultimately show False by (simp add: weight_of_def)
qed

lemma remove_isolates:
  assumes wf: "wf_graph G"
  shows "remove_nodes_from G (isolates G)
           = \<lparr>g_node = filter (\<lambda>(k, a). k \<notin> set (isolates G)) (g_node G),
              g_adj = filter (\<lambda>(k, nb). nb \<noteq> []) (g_adj G)\<rparr>"
proof -
  note parts = wf_graph_parts [OF wf]
  have d: "distinct (isolates G)"
    using parts(2) by (simp add: isolates_eq dict_keys_def distinct_map_filter)
  have iso: "map_of (g_adj G) n = Some [] \<and> n \<in> set (dict_keys (g_node G))"
    if "n \<in> set (isolates G)" for n
  proof -
    from that have mem: "(n, []) \<in> set (g_adj G)" by (auto simp: isolates_eq)
    then have "n \<in> set (dict_keys (g_adj G))" by (force simp: dict_keys_def)
    with wf_adj_mem(1) [OF wf mem] parts(1) show ?thesis by simp
  qed
  have "filter (\<lambda>(k, nb). k \<notin> set (isolates G)) (g_adj G) = filter (\<lambda>(k, nb). nb \<noteq> []) (g_adj G)"
  proof (rule filter_cong [OF refl])
    fix p assume p: "p \<in> set (g_adj G)"
    obtain k nb where knb: "p = (k, nb)" by (cases p)
    have "k \<in> set (isolates G) \<longleftrightarrow> nb = []"
    proof
      assume "k \<in> set (isolates G)"
      then have "(k, []) \<in> set (g_adj G)" by (auto simp: isolates_eq)
      from wf_adj_mem(1) [OF wf this] wf_adj_mem(1) [OF wf p [unfolded knb]]
      show "nb = []" by simp
    next
      assume "nb = []"
      with p knb show "k \<in> set (isolates G)" by (force simp: isolates_eq)
    qed
    then show "(case p of (k, nb) \<Rightarrow> k \<notin> set (isolates G)) = (case p of (k, nb) \<Rightarrow> nb \<noteq> [])"
      by (simp add: knb)
  qed
  with remove_isolated_nodes [OF d iso] show ?thesis
    by (simp add: remove_nodes_from_def)
qed

lemma edges_remove_isolates:
  assumes wf: "wf_graph G"
  shows "edges (remove_nodes_from G (isolates G)) = edges G"
  unfolding remove_isolates [OF wf] edges_def
  using edges_from_drop_isolated [of "g_adj G" "[]"] wf_no_isolated_neighbour [OF wf]
  by simp

subsection \<open>Every stored weight is enumerated\<close>




subsection \<open>The list of weighted edges and its sorting\<close>

lemma get_weight_eq:
  "get_weight G u v = (case weight_of G u v of None \<Rightarrow> Inl KeyError | Some w \<Rightarrow> Inr w)"
  by (simp add: get_weight_def weight_of_def dict_get_def split: option.splits)

lemma edge_weights_loop_eq:
  "(\<And>e. e \<in> set es \<Longrightarrow> \<exists>w. weight_of G (fst e) (snd e) = Some w) \<Longrightarrow>
   edge_weights_loop G es acc = Inr (acc @ map (\<lambda>e. (e, edge_weight G e)) es)"
proof (induction es arbitrary: acc)
  case Nil
  show ?case by simp
next
  case (Cons e es)
  from Cons.prems [of e] obtain w where w: "weight_of G (fst e) (snd e) = Some w" by auto
  have "edge_weights_loop G es (acc @ [(e, w)])
          = Inr ((acc @ [(e, w)]) @ map (\<lambda>e. (e, edge_weight G e)) es)"
    by (rule Cons.IH) (use Cons.prems in auto)
  then show ?case by (simp add: get_weight_eq w edge_weight_def)
qed

lemma edge_weights_of_wf:
  assumes "wf_graph G"
  shows "edge_weights_loop G (edges G) [] = Inr (map (\<lambda>e. (e, edge_weight G e)) (edges G))"
  using edge_weights_loop_eq [of "edges G" G "[]"] edges_weight [OF assms]
  by (metis append_Nil prod.collapse)






lemma map_of_filter_val:
  "distinct (map fst d) \<Longrightarrow>
   map_of (filter (\<lambda>(k, v). P v) d) k
     = (case map_of d k of None \<Rightarrow> None | Some v \<Rightarrow> if P v then Some v else None)"
proof (induction d)
  case Nil
  show ?case by simp
next
  case (Cons p d)
  obtain k' v' where p: "p = (k', v')" by (cases p)
  from Cons.prems have d: "distinct (map fst d)" and notin: "k' \<notin> fst ` set d" by (simp_all add: p)
  from notin have none: "map_of d k' = None" by (simp add: map_of_eq_None_iff)
  show ?case
  proof (cases "k = k'")
    case True
    with none Cons.IH [OF d] show ?thesis by (simp add: p)
  next
    case False
    with Cons.IH [OF d] show ?thesis by (simp add: p)
  qed
qed

lemma weight_of_remove_isolates:
  assumes wf: "wf_graph G"
  shows "weight_of (remove_nodes_from G (isolates G)) a b = weight_of G a b"
proof -
  note parts = wf_graph_parts [OF wf]
  have "map_of (filter (\<lambda>(k, nb). nb \<noteq> []) (g_adj G)) a
          = (case map_of (g_adj G) a of None \<Rightarrow> None | Some nb \<Rightarrow> if nb \<noteq> [] then Some nb else None)"
    using parts(2) by (simp add: map_of_filter_val dict_keys_def)
  then show ?thesis
    by (simp add: remove_isolates [OF wf] weight_of_def split: option.splits)
qed

subsection \<open>The pruning\<close>


subsection \<open>The two pruned views\<close>


lemma all_tie_2: "generate_graph_data_all env0 df_tie 2 = Inr graph_tie"
  by code_simp

lemma edges_graph_ab: "edges graph_ab = [(''a'', ''b'')]"
  by code_simp

lemma words_cat_cat: "generate_graph_data_words env0 df_cat [''cat'', ''cat''] = Inr graph_cat"
  by code_simp




text \<open>
  Claim C5. No graph of the three builders is meant to hold a self-loop, and every weight
  is meant to count the titles that hold both end points. \<^verbatim>\<open>generate_graph_data_words\<close>
  appends a token to \<^verbatim>\<open>search_words\<close> once for every entry of \<open>words\<close> that equals it,
  so a word that is listed twice stays in \<^verbatim>\<open>targ_list\<close> after
  \<^verbatim>\<open>temp_targ_list.remove(s_tok)\<close> took one copy out, and gets an edge to itself.
\<close>

theorem words_view_self_loop:
  "generate_graph_data_words env0 df_cat [''cat'', ''cat''] = Inr graph_cat
   \<and> edges graph_cat = [(''cat'', ''cat'')]
   \<and> weight_of graph_cat ''cat'' ''cat'' = Some 1"
  by (simp add: words_cat_cat) code_simp


subsection \<open>Counting co-occurrences\<close>

lemma edge_weight_pair: "edge_weight G (a, b) = (case weight_of G a b of None \<Rightarrow> 0 | Some w \<Rightarrow> w)"
  by (simp add: edge_weight_def)

lemma edge_weight_sym:
  assumes "wf_graph G"
  shows "edge_weight G (a, b) = edge_weight G (b, a)"
proof (cases "weight_of G a b")
  case None
  have "weight_of G b a = None"
  proof (rule ccontr)
    assume "weight_of G b a \<noteq> None"
    then obtain w where "weight_of G b a = Some w" by auto
    from wf_graph_parts(4) [OF assms this] None show False by simp
  qed
  with None show ?thesis by (simp add: edge_weight_pair)
next
  case (Some w)
  from wf_graph_parts(4) [OF assms Some] Some show ?thesis by (simp add: edge_weight_pair)
qed

lemma weight_of_bump_edge:
  assumes "u \<in> set (dict_keys (g_adj G))" "v \<in> set (dict_keys (g_adj G))"
  shows "weight_of (bump_edge G u v) a b =
           (if (a = u \<and> b = v) \<or> (a = v \<and> b = u) then Some (edge_weight G (u, v) + 1)
            else weight_of G a b)"
  by (cases "weight_of G u v")
    (simp_all add: bump_edge_def weight_of_put_weight [OF assms] edge_weight_pair)

lemma bump_edge_counts:
  assumes wf: "wf_graph G" and good: "good_weights G" and ne: "u \<noteq> v"
    and u: "u \<in> set (dict_keys (g_adj G))" and v: "v \<in> set (dict_keys (g_adj G))"
  shows "good_weights (bump_edge G u v)"
    and "edge_weight (bump_edge G u v) (a, b)
           = edge_weight G (a, b) + (if (a = u \<and> b = v) \<or> (a = v \<and> b = u) then 1 else 0)"
proof -
  have nonneg: "0 \<le> edge_weight G (u, v)"
  proof (cases "weight_of G u v")
    case None
    then show ?thesis by (simp add: edge_weight_pair)
  next
    case (Some w)
    with good have "0 < w" unfolding good_weights_def by blast
    with Some show ?thesis by (simp add: edge_weight_pair)
  qed
  show "good_weights (bump_edge G u v)"
    unfolding good_weights_def
  proof (intro allI impI)
    fix a b w assume w: "weight_of (bump_edge G u v) a b = Some w"
    show "0 < w \<and> a \<noteq> b"
    proof (cases "(a = u \<and> b = v) \<or> (a = v \<and> b = u)")
      case True
      with w have "w = edge_weight G (u, v) + 1" by (simp add: weight_of_bump_edge [OF u v])
      with nonneg True ne show ?thesis by auto
    next
      case False
      with w have "weight_of G a b = Some w" by (simp add: weight_of_bump_edge [OF u v])
      with good show ?thesis unfolding good_weights_def by blast
    qed
  qed
  show "edge_weight (bump_edge G u v) (a, b)
           = edge_weight G (a, b) + (if (a = u \<and> b = v) \<or> (a = v \<and> b = u) then 1 else 0)"
  proof -
    have new: "edge_weight (bump_edge G u v) (a, b)
                 = (if (a = u \<and> b = v) \<or> (a = v \<and> b = u) then edge_weight G (u, v) + 1
                    else edge_weight G (a, b))"
      unfolding edge_weight_pair [of "bump_edge G u v"] weight_of_bump_edge [OF u v]
      by (cases "(a = u \<and> b = v) \<or> (a = v \<and> b = u)")
        (simp_all only: if_P if_not_P if_True if_False option.case edge_weight_pair [of G])
    consider "a = u" "b = v" | "a = v" "b = u" | "\<not> ((a = u \<and> b = v) \<or> (a = v \<and> b = u))"
      by blast
    then show ?thesis
    proof cases
      case 1
      then show ?thesis unfolding new by simp
    next
      case 2
      then have "edge_weight G (a, b) = edge_weight G (u, v)"
        using edge_weight_sym [OF wf, of v u] by simp
      with 2 show ?thesis unfolding new by simp
    next
      case 3
      then show ?thesis unfolding new by (simp only: if_not_P if_False add_0_right)
    qed
  qed
qed

lemma fold_bump_counts:
  "wf_graph G \<Longrightarrow> good_weights G \<Longrightarrow> distinct ts \<Longrightarrow> s \<notin> set ts \<Longrightarrow>
   s \<in> set (dict_keys (g_adj G)) \<Longrightarrow> set ts \<subseteq> set (dict_keys (g_adj G)) \<Longrightarrow>
   good_weights (fold (\<lambda>t G'. bump_edge G' s t) ts G)
   \<and> (\<forall>a b. edge_weight (fold (\<lambda>t G'. bump_edge G' s t) ts G) (a, b)
         = edge_weight G (a, b) + (if (a = s \<and> b \<in> set ts) \<or> (b = s \<and> a \<in> set ts) then 1 else 0))"
proof (induction ts arbitrary: G)
  case Nil
  then show ?case by simp
next
  case (Cons t ts)
  let ?G1 = "bump_edge G s t"
  from Cons.prems have st: "s \<noteq> t" and t: "t \<in> set (dict_keys (g_adj G))"
    and d: "distinct ts" and s_ts: "s \<notin> set ts" and t_ts: "t \<notin> set ts"
    and sub: "set ts \<subseteq> set (dict_keys (g_adj G))"
    by auto
  have wf1: "wf_graph ?G1" by (rule wf_bump_edge [OF Cons.prems(1,5) t])
  note b = bump_edge_counts [OF Cons.prems(1,2) st Cons.prems(5) t]
  have "good_weights (fold (\<lambda>t G'. bump_edge G' s t) ts ?G1)
   \<and> (\<forall>a b. edge_weight (fold (\<lambda>t G'. bump_edge G' s t) ts ?G1) (a, b)
         = edge_weight ?G1 (a, b) + (if (a = s \<and> b \<in> set ts) \<or> (b = s \<and> a \<in> set ts) then 1 else 0))"
    by (rule Cons.IH [OF wf1 b(1) d s_ts]) (use Cons.prems(5) sub in simp_all)
  then show ?case
    using st t_ts s_ts by (auto simp: b(2))
qed

lemma list_remove_head: "list_remove (s # src) s = Inr src"
  by (simp add: list_remove_def)

lemma add_edges_loop_counts:
  "add_edges_loop src src G = Inr G' \<Longrightarrow> wf_graph G \<Longrightarrow> good_weights G \<Longrightarrow> distinct src \<Longrightarrow>
   set src \<subseteq> set (dict_keys (g_adj G)) \<Longrightarrow>
   good_weights G'
   \<and> (\<forall>a b. edge_weight G' (a, b)
         = edge_weight G (a, b) + (if a \<noteq> b \<and> a \<in> set src \<and> b \<in> set src then 1 else 0))"
proof (induction src arbitrary: G)
  case Nil
  then show ?case by simp
next
  case (Cons s src)
  let ?G1 = "fold (\<lambda>t G'. bump_edge G' s t) src G"
  from Cons.prems(1) have rest: "add_edges_loop src src ?G1 = Inr G'"
    by (simp add: list_remove_head)
  from Cons.prems have d: "distinct src" and s_src: "s \<notin> set src"
    and s: "s \<in> set (dict_keys (g_adj G))" and sub: "set src \<subseteq> set (dict_keys (g_adj G))"
    by auto
  from wf_fold_bump [OF Cons.prems(2) s sub]
  have wf1: "wf_graph ?G1" and k1: "dict_keys (g_adj ?G1) = dict_keys (g_adj G)" by simp_all
  from fold_bump_counts [OF Cons.prems(2,3) d s_src s sub]
  have g1: "good_weights ?G1"
    and c1: "\<And>a b. edge_weight ?G1 (a, b)
         = edge_weight G (a, b) + (if (a = s \<and> b \<in> set src) \<or> (b = s \<and> a \<in> set src) then 1 else 0)"
    by blast+
  have "good_weights G'
   \<and> (\<forall>a b. edge_weight G' (a, b)
         = edge_weight ?G1 (a, b) + (if a \<noteq> b \<and> a \<in> set src \<and> b \<in> set src then 1 else 0))"
    by (rule Cons.IH [OF rest wf1 g1 d]) (simp add: k1 sub)
  then show ?case using s_src by (auto simp: c1)
qed

lemma weight_of_add_node:
  assumes "wf_graph G"
  shows "weight_of (add_node G n a) u v = weight_of G u v"
proof (cases "dict_has (g_node G) n")
  case True
  then show ?thesis by (simp add: add_node_def weight_of_def)
next
  case False
  with wf_graph_parts(1) [OF assms] have "n \<notin> set (dict_keys (g_adj G))"
    by (simp add: dict_has_def)
  then have "map_of (g_adj G) n = None" by (simp add: map_of_None_iff_keys)
  with False show ?thesis by (simp add: add_node_def weight_of_def map_of_dict_set)
qed

lemma add_nodes_loop_weights:
  "add_nodes_loop stats toks G = Inr G' \<Longrightarrow> wf_graph G \<Longrightarrow> weight_of G' u v = weight_of G u v"
proof (induction toks arbitrary: G)
  case Nil
  then show ?case by simp
next
  case (Cons t toks)
  from Cons.prems(1) obtain a where a: "node_attrs_of stats t = Inr a"
    and rest: "add_nodes_loop stats toks (add_node G t a) = Inr G'"
    by (auto split: sum.splits)
  from Cons.IH [OF rest wf_add_node [OF Cons.prems(2)]] weight_of_add_node [OF Cons.prems(2)]
  show ?case by simp
qed

lemma good_weights_cong: "(\<And>u v. weight_of G' u v = weight_of G u v) \<Longrightarrow> good_weights G' = good_weights G"
  by (simp add: good_weights_def)

lemma edge_weight_cong: "(\<And>u v. weight_of G' u v = weight_of G u v) \<Longrightarrow> edge_weight G' e = edge_weight G e"
  by (simp add: edge_weight_def)

lemma co_count_Cons:
  "co_count env (title # titles) a b
     = (if a \<in> set (tokenize_and_stem env title) \<and> b \<in> set (tokenize_and_stem env title) then 1 else 0)
       + co_count env titles a b"
  by (simp add: co_count_def)

lemma all_titles_loop_counts:
  "all_titles_loop env stats titles G = Inr G' \<Longrightarrow> wf_graph G \<Longrightarrow> good_weights G \<Longrightarrow>
   set_order_ok env \<Longrightarrow>
   good_weights G'
   \<and> (\<forall>a b. edge_weight G' (a, b)
         = edge_weight G (a, b) + (if a \<noteq> b then co_count env titles a b else 0))"
proof (induction titles arbitrary: G)
  case Nil
  then show ?case by (simp add: co_count_def)
next
  case (Cons title titles)
  let ?toks = "tokenize_and_stem env title"
  from Cons.prems(1) obtain G1 G2 where
    n: "add_nodes_loop stats ?toks G = Inr G1" and
    e: "add_edges_loop ?toks ?toks G1 = Inr G2" and
    rest: "all_titles_loop env stats titles G2 = Inr G'"
    by (auto simp: Let_def split: sum.splits)
  from Cons.prems(4) have d: "distinct ?toks"
    by (simp add: tokenize_and_stem_def set_order_ok_def Let_def)
  from wf_add_nodes_loop [OF n Cons.prems(2)]
  have wf1: "wf_graph G1" and sub: "set ?toks \<subseteq> set (dict_keys (g_adj G1))" by auto
  note same = add_nodes_loop_weights [OF n Cons.prems(2)]
  have g1: "good_weights G1" using Cons.prems(3) by (simp add: good_weights_cong [OF same])
  from wf_add_edges_loop [OF e wf1 sub sub] have wf2: "wf_graph G2" by simp
  from add_edges_loop_counts [OF e wf1 g1 d sub]
  have g2: "good_weights G2"
    and c2: "\<And>a b. edge_weight G2 (a, b)
         = edge_weight G (a, b) + (if a \<noteq> b \<and> a \<in> set ?toks \<and> b \<in> set ?toks then 1 else 0)"
    by (simp_all add: edge_weight_cong [OF same])
  from Cons.IH [OF rest wf2 g2 Cons.prems(4)]
  show ?case by (auto simp: c2 co_count_Cons)
qed

lemma word_targets_loop_counts:
  "word_targets_loop stats word targs G = Inr G' \<Longrightarrow> wf_graph G \<Longrightarrow> good_weights G \<Longrightarrow>
   distinct targs \<Longrightarrow> word \<notin> set targs \<Longrightarrow> word \<in> set (dict_keys (g_adj G)) \<Longrightarrow>
   good_weights G'
   \<and> (\<forall>a b. edge_weight G' (a, b)
         = edge_weight G (a, b)
           + (if (a = word \<and> b \<in> set targs) \<or> (b = word \<and> a \<in> set targs) then 1 else 0))"
proof (induction targs arbitrary: G)
  case Nil
  then show ?case by simp
next
  case (Cons t targs)
  from Cons.prems(1) obtain ta where ta: "node_attrs_of stats t = Inr ta"
    and rest: "word_targets_loop stats word targs (bump_edge (add_node G t ta) word t) = Inr G'"
    by (auto split: sum.splits)
  let ?G1 = "add_node G t ta" and ?G2 = "bump_edge (add_node G t ta) word t"
  from Cons.prems have wt: "word \<noteq> t" and d: "distinct targs" and w_t: "word \<notin> set targs"
    and t_t: "t \<notin> set targs"
    by auto
  have wf1: "wf_graph ?G1" using Cons.prems(2) by (rule wf_add_node)
  note same = weight_of_add_node [OF Cons.prems(2), of t ta]
  have g1: "good_weights ?G1" using Cons.prems(3) by (simp add: good_weights_cong [OF same])
  from adj_keys_add_node_sub [OF Cons.prems(2), of t ta] Cons.prems(6)
  have w1: "word \<in> set (dict_keys (g_adj ?G1))" and t1: "t \<in> set (dict_keys (g_adj ?G1))"
    by auto
  have wf2: "wf_graph ?G2" using wf1 w1 t1 by (rule wf_bump_edge)
  note b = bump_edge_counts [OF wf1 g1 wt w1 t1]
  have w2: "word \<in> set (dict_keys (g_adj ?G2))" using w1 by simp
  have "good_weights G'
   \<and> (\<forall>a b. edge_weight G' (a, b)
         = edge_weight ?G2 (a, b)
           + (if (a = word \<and> b \<in> set targs) \<or> (b = word \<and> a \<in> set targs) then 1 else 0))"
    by (rule Cons.IH [OF rest wf2 b(1) d w_t w2])
  then show ?case
    using wt t_t w_t by (auto simp: b(2) edge_weight_cong [OF same])
qed

lemma word_titles_loop_counts:
  "word_titles_loop env stats word titles G = Inr G' \<Longrightarrow> wf_graph G \<Longrightarrow> good_weights G \<Longrightarrow>
   set_order_ok env \<Longrightarrow>
   good_weights G'
   \<and> (\<forall>a b. edge_weight G' (a, b)
         = edge_weight G (a, b)
           + (if a \<noteq> b \<and> (a = word \<or> b = word) then co_count env titles a b else 0))"
proof (induction titles arbitrary: G)
  case Nil
  then show ?case by (simp add: co_count_def)
next
  case (Cons title titles)
  let ?toks = "tokenize_and_stem env title"
  show ?case
  proof (cases "word \<in> set ?toks")
    case False
    with Cons.prems(1) have "word_titles_loop env stats word titles G = Inr G'"
      by (simp add: Let_def)
    from Cons.IH [OF this Cons.prems(2,3,4)] False show ?thesis
      by (auto simp: co_count_Cons)
  next
    case True
    let ?targs = "filter (\<lambda>token. \<not> word = token) ?toks"
    from True Cons.prems(1) obtain aw G1 where aw: "node_attrs_of stats word = Inr aw"
      and t: "word_targets_loop stats word ?targs (add_node G word aw) = Inr G1"
      and rest: "word_titles_loop env stats word titles G1 = Inr G'"
      by (auto simp: Let_def split: sum.splits)
    let ?G0 = "add_node G word aw"
    from Cons.prems(4) have d: "distinct ?targs"
      by (simp add: tokenize_and_stem_def set_order_ok_def Let_def)
    have wf0: "wf_graph ?G0" using Cons.prems(2) by (rule wf_add_node)
    note same = weight_of_add_node [OF Cons.prems(2), of word aw]
    have g0: "good_weights ?G0" using Cons.prems(3) by (simp add: good_weights_cong [OF same])
    have w0: "word \<in> set (dict_keys (g_adj ?G0))"
      using adj_keys_add_node_sub [OF Cons.prems(2), of word aw] by simp
    have wf1: "wf_graph G1" by (rule wf_word_targets_loop [OF t wf0 w0])
    have "word \<notin> set ?targs" by simp
    from word_targets_loop_counts [OF t wf0 g0 d this w0]
    have g1: "good_weights G1"
      and c1: "\<And>a b. edge_weight G1 (a, b)
         = edge_weight G (a, b)
           + (if (a = word \<and> b \<in> set ?targs) \<or> (b = word \<and> a \<in> set ?targs) then 1 else 0)"
      by (simp_all add: edge_weight_cong [OF same])
    from Cons.IH [OF rest wf1 g1 Cons.prems(4)] True show ?thesis
      by (auto simp: c1 co_count_Cons)
  qed
qed

lemma filter_eq_distinct:
  "distinct ws \<Longrightarrow> filter (\<lambda>w. t = w) ws = (if t \<in> set ws then [t] else [])"
  by (induction ws) auto

lemma search_words_of_distinct:
  "distinct words \<Longrightarrow> search_words_of tokens words = filter (\<lambda>t. t \<in> set words) tokens"
  by (induction tokens) (simp_all add: search_words_of_def filter_eq_distinct)

lemma two_members_length:
  assumes "a \<noteq> b" "a \<in> set xs" "b \<in> set xs"
  shows "2 \<le> length xs"
proof -
  from assms have "card {a, b} \<le> card (set xs)" by (intro card_mono) auto
  also have "\<dots> \<le> length xs" by (rule card_length)
  finally show ?thesis using assms(1) by simp
qed

lemma words_titles_loop_counts:
  "words_titles_loop env stats words titles G = Inr G' \<Longrightarrow> wf_graph G \<Longrightarrow> good_weights G \<Longrightarrow>
   set_order_ok env \<Longrightarrow> distinct words \<Longrightarrow>
   wf_graph G' \<and> good_weights G'
   \<and> (\<forall>a b. edge_weight G' (a, b)
         = edge_weight G (a, b)
           + (if a \<noteq> b \<and> a \<in> set words \<and> b \<in> set words then co_count env titles a b else 0))"
proof (induction titles arbitrary: G)
  case Nil
  then show ?case by (simp add: co_count_def)
next
  case (Cons title titles)
  let ?toks = "tokenize_and_stem env title"
  let ?sw = "filter (\<lambda>t. t \<in> set words) ?toks"
  note sw = search_words_of_distinct [OF Cons.prems(5), of ?toks]
  from Cons.prems(4) have d: "distinct ?sw"
    by (simp add: tokenize_and_stem_def set_order_ok_def Let_def)
  show ?case
  proof (cases "length ?sw \<le> 1")
    case True
    with Cons.prems(1) have "words_titles_loop env stats words titles G = Inr G'"
      by (simp add: Let_def sw)
    note IH = Cons.IH [OF this Cons.prems(2,3,4,5)]
    have "\<not> (a \<noteq> b \<and> a \<in> set words \<and> b \<in> set words \<and> a \<in> set ?toks \<and> b \<in> set ?toks)" for a b
    proof
      assume "a \<noteq> b \<and> a \<in> set words \<and> b \<in> set words \<and> a \<in> set ?toks \<and> b \<in> set ?toks"
      then have "2 \<le> length ?sw" by (intro two_members_length [of a b]) auto
      with True show False by simp
    qed
    with IH show ?thesis by (auto simp: co_count_Cons)
  next
    case False
    with Cons.prems(1) obtain G1 G2 where
      n: "add_nodes_loop stats ?sw G = Inr G1" and
      e: "add_edges_loop ?sw ?sw G1 = Inr G2" and
      rest: "words_titles_loop env stats words titles G2 = Inr G'"
      by (auto simp: Let_def sw split: sum.splits)
    from wf_add_nodes_loop [OF n Cons.prems(2)]
    have wf1: "wf_graph G1" and sub: "set ?sw \<subseteq> set (dict_keys (g_adj G1))" by auto
    note same = add_nodes_loop_weights [OF n Cons.prems(2)]
    have g1: "good_weights G1" using Cons.prems(3) by (simp add: good_weights_cong [OF same])
    from wf_add_edges_loop [OF e wf1 sub sub] have wf2: "wf_graph G2" by simp
    from add_edges_loop_counts [OF e wf1 g1 d sub]
    have g2: "good_weights G2"
      and c2: "\<And>a b. edge_weight G2 (a, b)
         = edge_weight G (a, b) + (if a \<noteq> b \<and> a \<in> set ?sw \<and> b \<in> set ?sw then 1 else 0)"
      by (simp_all add: edge_weight_cong [OF same])
    from Cons.IH [OF rest wf2 g2 Cons.prems(4,5)]
    show ?thesis by (auto simp: c2 co_count_Cons)
  qed
qed

lemma good_weights_empty: "good_weights empty_graph"
  by (simp add: good_weights_def empty_graph_def weight_of_def)

lemma edge_weight_empty: "edge_weight empty_graph e = 0"
  by (simp add: edge_weight_def empty_graph_def weight_of_def)

text \<open>Whatever \<open>top_n\<close> is, the pruning leaves edges of the graph with their weights.\<close>

lemma prune_top_n_subgraph:
  assumes wf: "wf_graph G" and run: "prune_top_n G top_n = Inr Gf"
  shows "set (edges Gf) \<subseteq> set (edges G)"
    and "\<And>a b. (a, b) \<in> set (edges Gf) \<Longrightarrow> weight_of Gf a b = weight_of G a b"
proof -
  let ?es = "edges G"
  let ?ew = "map (\<lambda>e. (e, edge_weight G e)) ?es"
  define topl where "topl = map fst (py_slice_to (sort_tuples ?ew) (top_n - 1))"
  define R where "R = filter (\<lambda>e. e \<notin> set topl) ?es"
  define G' where "G' = remove_edges_from G R"
  let ?Q = "\<lambda>a b. (a, b) \<notin> set R \<and> (b, a) \<notin> set R"
  from run have Gf: "Gf = remove_nodes_from G' (isolates G')"
    by (simp add: prune_top_n_def edge_weights_of_wf [OF wf] Let_def G'_def R_def topl_def)
  have G': "G' = G\<lparr>g_adj := restrict_adj ?Q (g_adj G)\<rparr>"
    unfolding G'_def by (rule remove_edges_from_restrict [OF wf])
  have wf': "wf_graph G'"
    unfolding G' by (rule wf_restrict [OF wf]) auto
  have edges': "edges G' = filter (\<lambda>e. e \<notin> set R) ?es"
    unfolding G'_def by (rule edges_remove_edges_from [OF wf]) (auto simp: R_def)
  have edges_f: "edges Gf = edges G'"
    unfolding Gf by (rule edges_remove_isolates [OF wf'])
  show "set (edges Gf) \<subseteq> set (edges G)" by (auto simp: edges_f edges')
  fix a b assume "(a, b) \<in> set (edges Gf)"
  then have "(a, b) \<in> set (edges G')" by (simp add: edges_f)
  from edges_weight [OF wf' this] obtain w where w: "weight_of G' a b = Some w" by blast
  have "weight_of G' a b = (if ?Q a b then weight_of G a b else None)"
    unfolding G' by (rule weight_of_restrict)
  with w have "weight_of G' a b = weight_of G a b" by (simp split: if_splits)
  moreover have "weight_of Gf a b = weight_of G' a b"
    unfolding Gf by (rule weight_of_remove_isolates [OF wf'])
  ultimately show "weight_of Gf a b = weight_of G a b" by simp
qed

lemma words_abc: "generate_graph_data_words env0 df_abc [''a'', ''b'', ''c''] = Inr graph_abc"
  by code_simp

lemma co_count_abc: "co_count env0 (map fst df_abc) ''a'' ''b'' = 2"
  by code_simp

lemma edges_weight_counts:
  assumes wf: "wf_graph G" and good: "good_weights G" and e: "(a, b) \<in> set (edges G)"
    and c: "edge_weight G (a, b) = (if P then n else 0)"
  shows "a \<noteq> b \<and> 0 < n \<and> weight_of G a b = Some n"
proof -
  from edges_weight [OF wf e] obtain w where w: "weight_of G a b = Some w" by blast
  with good have pos: "0 < w" and ne: "a \<noteq> b" unfolding good_weights_def by blast+
  from w have "edge_weight G (a, b) = w" by (simp add: edge_weight_pair)
  with c pos have "w = n" by (simp split: if_splits)
  with w pos ne show ?thesis by simp
qed

lemma edges_graph_abc: "edges graph_abc = [(''a'', ''b''), (''a'', ''c'')]"
  by code_simp

lemma co_count_abc_c: "co_count env0 (map fst df_abc) ''a'' ''c'' = 1"
  by code_simp

text \<open>
  What holds of the edge weights (the part of claim C5 that the code keeps): when the set
  of tokens enumerates every token once, every edge of a graph that the global or the ego
  view returns joins two different tokens and its weight is the number of titles that
  hold both, which is positive; the same holds of the sub-vocabulary view when no word is
  listed twice.
\<close>

theorem edge_weights_count_titles:
  assumes ok: "set_order_ok env"
  shows "(generate_graph_data_all env df top_n = Inr Gf \<longrightarrow>
            (\<forall>(a, b)\<in>set (edges Gf). a \<noteq> b \<and> 0 < co_count env (map fst df) a b
               \<and> weight_of Gf a b = Some (co_count env (map fst df) a b)))
       \<and> (generate_graph_data_word env df word top_n = Inr Gf \<longrightarrow>
            (\<forall>(a, b)\<in>set (edges Gf). a \<noteq> b \<and> 0 < co_count env (map fst df) a b
               \<and> weight_of Gf a b = Some (co_count env (map fst df) a b)))
       \<and> (distinct words \<and> generate_graph_data_words env df words = Inr Gf \<longrightarrow>
            (\<forall>(a, b)\<in>set (edges Gf). a \<noteq> b \<and> 0 < co_count env (map fst df) a b
               \<and> weight_of Gf a b = Some (co_count env (map fst df) a b)))"
proof (intro conjI impI ballI)
  fix e assume run: "generate_graph_data_all env df top_n = Inr Gf" and e: "e \<in> set (edges Gf)"
  obtain a b where ab: "e = (a, b)" by (cases e)
  from run obtain stats G0 G1 where
    b: "all_titles_loop env stats (map fst df) empty_graph = Inr G0"
    and at: "assign_total_deg G0 = Inr G1" and p: "prune_top_n G1 top_n = Inr Gf"
    by (auto simp: generate_graph_data_all_def split: sum.splits)
  have wf0: "wf_graph G0" by (rule wf_all_titles_loop [OF b wf_empty_graph])
  note asg = assign_total_deg_result [OF at wf0]
  from all_titles_loop_counts [OF b wf_empty_graph good_weights_empty ok]
  have g0: "good_weights G0"
    and c0: "edge_weight G0 (a, b) = (if a \<noteq> b then co_count env (map fst df) a b else 0)"
    by (simp_all add: edge_weight_empty)
  have same: "weight_of G1 u v = weight_of G0 u v" for u v by (simp add: weight_of_def asg(1))
  have g1: "good_weights G1" using g0 by (simp add: good_weights_cong [OF same])
  have c1: "edge_weight G1 (a, b) = (if a \<noteq> b then co_count env (map fst df) a b else 0)"
    using c0 by (simp add: edge_weight_cong [OF same])
  from e ab prune_top_n_subgraph [OF asg(4) p] have e1: "(a, b) \<in> set (edges G1)"
    and w: "weight_of Gf a b = weight_of G1 a b" by auto
  from edges_weight_counts [OF asg(4) g1 e1 c1] w
  show "case e of (a, b) \<Rightarrow> a \<noteq> b \<and> 0 < co_count env (map fst df) a b
               \<and> weight_of Gf a b = Some (co_count env (map fst df) a b)"
    by (simp add: ab)
next
  fix e assume run: "generate_graph_data_word env df word top_n = Inr Gf" and e: "e \<in> set (edges Gf)"
  obtain a b where ab: "e = (a, b)" by (cases e)
  from run obtain stats G0 G1 where
    b: "word_titles_loop env stats word (map fst df) empty_graph = Inr G0"
    and at: "assign_total_deg G0 = Inr G1" and p: "prune_top_n G1 top_n = Inr Gf"
    by (auto simp: generate_graph_data_word_def split: sum.splits)
  have wf0: "wf_graph G0" by (rule wf_word_titles_loop [OF b wf_empty_graph])
  note asg = assign_total_deg_result [OF at wf0]
  from word_titles_loop_counts [OF b wf_empty_graph good_weights_empty ok]
  have g0: "good_weights G0"
    and c0: "edge_weight G0 (a, b)
               = (if a \<noteq> b \<and> (a = word \<or> b = word) then co_count env (map fst df) a b else 0)"
    by (simp_all add: edge_weight_empty)
  have same: "weight_of G1 u v = weight_of G0 u v" for u v by (simp add: weight_of_def asg(1))
  have g1: "good_weights G1" using g0 by (simp add: good_weights_cong [OF same])
  have c1: "edge_weight G1 (a, b)
               = (if a \<noteq> b \<and> (a = word \<or> b = word) then co_count env (map fst df) a b else 0)"
    using c0 by (simp add: edge_weight_cong [OF same])
  from e ab prune_top_n_subgraph [OF asg(4) p] have e1: "(a, b) \<in> set (edges G1)"
    and w: "weight_of Gf a b = weight_of G1 a b" by auto
  from edges_weight_counts [OF asg(4) g1 e1 c1] w
  show "case e of (a, b) \<Rightarrow> a \<noteq> b \<and> 0 < co_count env (map fst df) a b
               \<and> weight_of Gf a b = Some (co_count env (map fst df) a b)"
    by (simp add: ab)
next
  fix e assume run: "distinct words \<and> generate_graph_data_words env df words = Inr Gf"
    and e: "e \<in> set (edges Gf)"
  obtain a b where ab: "e = (a, b)" by (cases e)
  from run have dw: "distinct words" by simp
  from run obtain stats G0 where
    b: "words_titles_loop env stats words (map fst df) empty_graph = Inr G0"
    and at: "assign_total_deg G0 = Inr Gf"
    by (auto simp: generate_graph_data_words_def split: sum.splits)
  from words_titles_loop_counts [OF b wf_empty_graph good_weights_empty ok dw]
  have wf0: "wf_graph G0" and g0: "good_weights G0"
    and c0: "edge_weight G0 (a, b)
               = (if a \<noteq> b \<and> a \<in> set words \<and> b \<in> set words
                  then co_count env (map fst df) a b else 0)"
    by (simp_all add: edge_weight_empty)
  note asg = assign_total_deg_result [OF at wf0]
  have same: "weight_of Gf u v = weight_of G0 u v" for u v by (simp add: weight_of_def asg(1))
  have g1: "good_weights Gf" using g0 by (simp add: good_weights_cong [OF same])
  have c1: "edge_weight Gf (a, b)
               = (if a \<noteq> b \<and> a \<in> set words \<and> b \<in> set words
                  then co_count env (map fst df) a b else 0)"
    using c0 by (simp add: edge_weight_cong [OF same])
  from e ab have e1: "(a, b) \<in> set (edges Gf)" by simp
  from edges_weight_counts [OF asg(4) g1 e1 c1]
  show "case e of (a, b) \<Rightarrow> a \<noteq> b \<and> 0 < co_count env (map fst df) a b
               \<and> weight_of Gf a b = Some (co_count env (map fst df) a b)"
    by (simp add: ab)
qed

text \<open>The theorem on \<open>df_abc\<close>: in the two pruned views with \<open>top_n = 2\<close>, and in the
  sub-vocabulary view of the words \<open>a\<close>, \<open>b\<close>, \<open>c\<close>.\<close>

theorem edge_weights_count_titles_witness:
  "set_order_ok env0
   \<and> generate_graph_data_all env0 df_abc 2 = Inr graph_ab
   \<and> generate_graph_data_word env0 df_abc ''a'' 2 = Inr graph_ab
   \<and> edges graph_ab = [(''a'', ''b'')]
   \<and> weight_of graph_ab ''a'' ''b'' = Some (co_count env0 (map fst df_abc) ''a'' ''b'')
   \<and> co_count env0 (map fst df_abc) ''a'' ''b'' = 2
   \<and> distinct [''a'', ''b'', ''c'']
   \<and> generate_graph_data_words env0 df_abc [''a'', ''b'', ''c''] = Inr graph_abc
   \<and> edges graph_abc = [(''a'', ''b''), (''a'', ''c'')]
   \<and> weight_of graph_abc ''a'' ''c'' = Some (co_count env0 (map fst df_abc) ''a'' ''c'')
   \<and> co_count env0 (map fst df_abc) ''a'' ''c'' = 1"
  using edge_weights_count_titles [OF env0_ok, of df_abc 2 graph_ab "''a''" "[''a'', ''b'', ''c'']"]
    edge_weights_count_titles [OF env0_ok, of df_abc 2 graph_abc "''a''" "[''a'', ''b'', ''c'']"]
  by (simp add: env0_ok all_abc_2 word_abc_2 words_abc edges_graph_ab edges_graph_abc
        co_count_abc co_count_abc_c)

subsection \<open>The builders return\<close>

lemma count_tokens_keys:
  "count_tokens tokens amount freqs funding = Inr (fr, fu) \<Longrightarrow> stats_inv freqs funding \<Longrightarrow>
   0 \<le> amount \<Longrightarrow> (\<And>k f. map_of funding k = Some f \<Longrightarrow> 0 \<le> f) \<Longrightarrow>
   stats_inv fr fu \<and> set (dict_keys fu) = set (dict_keys funding) \<union> set tokens
   \<and> (\<forall>k f. map_of fu k = Some f \<longrightarrow> 0 \<le> f)"
proof (induction tokens arbitrary: freqs funding)
  case Nil
  then show ?case by auto
next
  case (Cons token tokens)
  from Cons.prems(2) have same: "dict_keys freqs = dict_keys funding" by (simp add: stats_inv_def)
  show ?case
  proof (cases "dict_has freqs token")
    case False
    let ?fr1 = "dict_set freqs token 1" and ?fu1 = "dict_set funding token amount"
    from False Cons.prems(1) have run: "count_tokens tokens amount ?fr1 ?fu1 = Inr (fr, fu)" by simp
    have inv1: "stats_inv ?fr1 ?fu1"
      using Cons.prems(2) False
      by (auto simp: stats_inv_def dict_has_def dict_keys_dict_set map_of_dict_set)
    have nn1: "0 \<le> f" if "map_of ?fu1 k = Some f" for k f
      using that Cons.prems(3) Cons.prems(4) [of k f] by (auto simp: map_of_dict_set split: if_splits)
    from Cons.IH [OF run inv1 Cons.prems(3) nn1] False same show ?thesis
      by (auto simp: dict_keys_dict_set dict_has_def)
  next
    case True
    then have in1: "token \<in> set (dict_keys freqs)" by (simp add: dict_has_def)
    with same have in2: "token \<in> set (dict_keys funding)" by simp
    from dict_get_in_keys [OF in1] obtain n where
      n: "dict_get freqs token = Inr n" "map_of freqs token = Some n" by blast
    from dict_get_in_keys [OF in2] obtain f0 where
      f0: "dict_get funding token = Inr f0" "map_of funding token = Some f0" by blast
    let ?fr1 = "dict_set freqs token (n + 1)" and ?fu1 = "dict_set funding token (f0 + amount)"
    from True n f0 Cons.prems(1) have run: "count_tokens tokens amount ?fr1 ?fu1 = Inr (fr, fu)"
      by simp
    from Cons.prems(2) n(2) have "1 \<le> n" by (simp add: stats_inv_def)
    then have inv1: "stats_inv ?fr1 ?fu1"
      using Cons.prems(2) in1 in2
      by (auto simp: stats_inv_def dict_keys_dict_set map_of_dict_set)
    have nn1: "0 \<le> f" if "map_of ?fu1 k = Some f" for k f
      using that Cons.prems(3) Cons.prems(4) [of k f] Cons.prems(4) [OF f0(2)]
      by (auto simp: map_of_dict_set split: if_splits)
    from Cons.IH [OF run inv1 Cons.prems(3) nn1] in2 show ?thesis
      by (auto simp: dict_keys_dict_set)
  qed
qed

lemma count_rows_keys:
  "count_rows env df freqs funding = Inr (fr, fu) \<Longrightarrow> stats_inv freqs funding \<Longrightarrow>
   (\<And>title amount. (title, amount) \<in> set df \<Longrightarrow> 0 \<le> amount) \<Longrightarrow>
   (\<And>k f. map_of funding k = Some f \<Longrightarrow> 0 \<le> f) \<Longrightarrow>
   stats_inv fr fu
   \<and> set (dict_keys fu) = set (dict_keys funding) \<union> (\<Union>title\<in>set (map fst df). set (tokenize_and_stem env title))
   \<and> (\<forall>k f. map_of fu k = Some f \<longrightarrow> 0 \<le> f)"
proof (induction df arbitrary: freqs funding)
  case Nil
  then show ?case by auto
next
  case (Cons row df)
  obtain title amount where row: "row = (title, amount)" by (cases row)
  from Cons.prems(1) obtain fr1 fu1 where
    step: "count_tokens (tokenize_and_stem env title) amount freqs funding = Inr (fr1, fu1)"
    and rest: "count_rows env df fr1 fu1 = Inr (fr, fu)"
    by (auto simp: row split: sum.splits)
  have a0: "0 \<le> amount" using Cons.prems(3) [of title amount] by (simp add: row)
  note ct = count_tokens_keys [OF step Cons.prems(2) a0 Cons.prems(4)]
  from ct have inv1: "stats_inv fr1 fu1" by (rule conjunct1)
  from ct have k1: "set (dict_keys fu1) = set (dict_keys funding) \<union> set (tokenize_and_stem env title)"
    by (rule conjunct1 [OF conjunct2])
  from ct have "\<forall>k f. map_of fu1 k = Some f \<longrightarrow> 0 \<le> f" by (rule conjunct2 [OF conjunct2])
  then have nn1: "\<And>k f. map_of fu1 k = Some f \<Longrightarrow> 0 \<le> f" by blast
  have "stats_inv fr fu
   \<and> set (dict_keys fu) = set (dict_keys fu1) \<union> (\<Union>title\<in>set (map fst df). set (tokenize_and_stem env title))
   \<and> (\<forall>k f. map_of fu k = Some f \<longrightarrow> 0 \<le> f)"
    by (rule Cons.IH [OF rest inv1 _ nn1]) (use Cons.prems(3) in auto)
  then show ?case by (auto simp: k1 row)
qed

lemma generate_data_all_tokens:
  assumes nonneg0: "\<forall>(title, amount)\<in>set df. 0 \<le> amount"
  shows "\<exists>stats. generate_data env df 0 = Inr stats
           \<and> (\<forall>title\<in>set (map fst df). \<forall>tok\<in>set (tokenize_and_stem env title).
                 \<exists>a. node_attrs_of stats tok = Inr a)"
proof -
  from nonneg0 have nonneg: "\<And>title amount. (title, amount) \<in> set df \<Longrightarrow> 0 \<le> amount"
    by auto
  from count_rows_total obtain fr fu where
    rows: "count_rows env df [] [] = Inr (fr, fu)" and inv: "stats_inv fr fu" by blast
  note cr = count_rows_keys [OF rows stats_inv_empty nonneg]
  from cr have keys: "set (dict_keys fu) = (\<Union>title\<in>set (map fst df). set (tokenize_and_stem env title))"
    by (simp add: dict_keys_def)
  from cr have nn: "\<And>k f. map_of fu k = Some f \<Longrightarrow> 0 \<le> f"
    by simp
  from inv have dk: "distinct (map fst fu)" and same: "dict_keys fr = dict_keys fu"
    by (auto simp: stats_inv_def dict_keys_def)
  have all: "filter (\<lambda>(k, f). 0 \<le> f) fu = fu"
  proof -
    have "0 \<le> f" if "(k, f) \<in> set fu" for k f
      using nn [of k f] dk that by simp
    then show ?thesis by (auto simp: filter_id_conv)
  qed
  let ?avg = "map (\<lambda>(k, f). (k, f div the (map_of fr k))) fu"
  let ?fr = "map (\<lambda>(k, f). (k, the (map_of fr k))) fu"
  have run: "generate_data env df 0 = Inr (?avg, fu, ?fr)"
    using generate_data_closed_form [OF rows inv, of 0] by (simp only: all)
  have k1: "dict_keys ?avg = dict_keys fu" and k2: "dict_keys ?fr = dict_keys fu"
    by (simp_all add: dict_keys_def comp_def case_prod_unfold)
  have "\<exists>a. node_attrs_of (?avg, fu, ?fr) tok = Inr a" if "tok \<in> set (dict_keys fu)" for tok
  proof -
    from that k1 k2 have "tok \<in> set (dict_keys ?avg)" "tok \<in> set (dict_keys ?fr)" by simp_all
    from dict_get_in_keys [OF this(1)] dict_get_in_keys [OF that] dict_get_in_keys [OF this(2)]
    obtain x y z where "dict_get ?avg tok = Inr x" "dict_get fu tok = Inr y" "dict_get ?fr tok = Inr z"
      by blast
    then show ?thesis by (simp add: node_attrs_of_def)
  qed
  with run keys show ?thesis by auto
qed

lemma add_nodes_loop_total:
  "(\<And>tok. tok \<in> set toks \<Longrightarrow> \<exists>a. node_attrs_of stats tok = Inr a) \<Longrightarrow>
   \<exists>G'. add_nodes_loop stats toks G = Inr G'"
proof (induction toks arbitrary: G)
  case Nil
  show ?case by simp
next
  case (Cons t toks)
  from Cons.prems [of t] obtain a where a: "node_attrs_of stats t = Inr a" by auto
  have "\<exists>G'. add_nodes_loop stats toks (add_node G t a) = Inr G'"
    by (rule Cons.IH) (use Cons.prems in auto)
  then show ?case by (simp add: a)
qed

lemma add_edges_loop_total: "\<exists>G'. add_edges_loop src src G = Inr G'"
  by (induction src arbitrary: G) (simp_all add: list_remove_head)

lemma all_titles_loop_total:
  "(\<And>title tok. title \<in> set titles \<Longrightarrow> tok \<in> set (tokenize_and_stem env title) \<Longrightarrow>
      \<exists>a. node_attrs_of stats tok = Inr a) \<Longrightarrow>
   \<exists>G'. all_titles_loop env stats titles G = Inr G'"
proof (induction titles arbitrary: G)
  case Nil
  show ?case by simp
next
  case (Cons title titles)
  let ?toks = "tokenize_and_stem env title"
  from add_nodes_loop_total [of ?toks stats G] Cons.prems [of title]
  obtain G1 where n: "add_nodes_loop stats ?toks G = Inr G1" by auto
  from add_edges_loop_total [of ?toks G1]
  obtain G2 where e: "add_edges_loop ?toks ?toks G1 = Inr G2" by blast
  have "\<exists>G'. all_titles_loop env stats titles G2 = Inr G'"
    by (rule Cons.IH) (use Cons.prems in auto)
  then show ?case by (simp add: n e Let_def)
qed

lemma word_targets_loop_total:
  "(\<And>tok. tok \<in> set targs \<Longrightarrow> \<exists>a. node_attrs_of stats tok = Inr a) \<Longrightarrow>
   \<exists>G'. word_targets_loop stats word targs G = Inr G'"
proof (induction targs arbitrary: G)
  case Nil
  show ?case by simp
next
  case (Cons t targs)
  from Cons.prems [of t] obtain a where a: "node_attrs_of stats t = Inr a" by auto
  have "\<exists>G'. word_targets_loop stats word targs (bump_edge (add_node G t a) word t) = Inr G'"
    by (rule Cons.IH) (use Cons.prems in auto)
  then show ?case by (simp add: a)
qed

lemma word_titles_loop_total:
  "(\<And>title tok. title \<in> set titles \<Longrightarrow> tok \<in> set (tokenize_and_stem env title) \<Longrightarrow>
      \<exists>a. node_attrs_of stats tok = Inr a) \<Longrightarrow>
   \<exists>G'. word_titles_loop env stats word titles G = Inr G'"
proof (induction titles arbitrary: G)
  case Nil
  show ?case by simp
next
  case (Cons title titles)
  let ?toks = "tokenize_and_stem env title"
  have IH: "\<exists>G'. word_titles_loop env stats word titles H = Inr G'" for H
    by (rule Cons.IH) (use Cons.prems in auto)
  show ?case
  proof (cases "word \<in> set ?toks")
    case False
    with IH [of G] show ?thesis by (simp add: Let_def)
  next
    case True
    from Cons.prems [of title word] True obtain aw where aw: "node_attrs_of stats word = Inr aw"
      by auto
    have "\<exists>G1. word_targets_loop stats word (filter (\<lambda>token. \<not> word = token) ?toks)
                  (add_node G word aw) = Inr G1"
      by (rule word_targets_loop_total) (use Cons.prems [of title] in auto)
    then obtain G1 where t: "word_targets_loop stats word (filter (\<lambda>token. \<not> word = token) ?toks)
                  (add_node G word aw) = Inr G1" by blast
    with IH [of G1] True show ?thesis by (simp add: Let_def aw)
  qed
qed

lemma search_words_of_subset: "set (search_words_of tokens words) \<subseteq> set tokens"
  by (auto simp: search_words_of_def)

lemma words_titles_loop_total:
  "(\<And>title tok. title \<in> set titles \<Longrightarrow> tok \<in> set (tokenize_and_stem env title) \<Longrightarrow>
      \<exists>a. node_attrs_of stats tok = Inr a) \<Longrightarrow>
   \<exists>G'. words_titles_loop env stats words titles G = Inr G'"
proof (induction titles arbitrary: G)
  case Nil
  show ?case by simp
next
  case (Cons title titles)
  let ?sw = "search_words_of (tokenize_and_stem env title) words"
  have IH: "\<exists>G'. words_titles_loop env stats words titles H = Inr G'" for H
    by (rule Cons.IH) (use Cons.prems in auto)
  show ?case
  proof (cases "length ?sw \<le> 1")
    case True
    with IH [of G] show ?thesis by (simp add: Let_def)
  next
    case False
    have "\<exists>G1. add_nodes_loop stats ?sw G = Inr G1"
      by (rule add_nodes_loop_total)
        (use Cons.prems [of title] search_words_of_subset [of "tokenize_and_stem env title" words] in auto)
    then obtain G1 where n: "add_nodes_loop stats ?sw G = Inr G1" by blast
    from add_edges_loop_total [of ?sw G1]
    obtain G2 where e: "add_edges_loop ?sw ?sw G1 = Inr G2" by blast
    from IH [of G2] False show ?thesis by (simp add: n e Let_def)
  qed
qed

lemma wf_words_titles_loop:
  "words_titles_loop env stats words titles G = Inr G' \<Longrightarrow> wf_graph G \<Longrightarrow> wf_graph G'"
proof (induction titles arbitrary: G)
  case Nil
  then show ?case by simp
next
  case (Cons title titles)
  let ?sw = "search_words_of (tokenize_and_stem env title) words"
  show ?case
  proof (cases "length ?sw \<le> 1")
    case True
    with Cons.prems(1) have "words_titles_loop env stats words titles G = Inr G'"
      by (simp add: Let_def)
    from Cons.IH [OF this Cons.prems(2)] show ?thesis .
  next
    case False
    with Cons.prems(1) obtain G1 G2 where
      n: "add_nodes_loop stats ?sw G = Inr G1" and
      e: "add_edges_loop ?sw ?sw G1 = Inr G2" and
      rest: "words_titles_loop env stats words titles G2 = Inr G'"
      by (auto simp: Let_def split: sum.splits)
    from wf_add_nodes_loop [OF n Cons.prems(2)]
    have wf1: "wf_graph G1" and sub: "set ?sw \<subseteq> set (dict_keys (g_adj G1))" by auto
    from wf_add_edges_loop [OF e wf1 sub sub] have "wf_graph G2" by simp
    from Cons.IH [OF rest this] show ?thesis .
  qed
qed

lemma total_deg_loop_total:
  "(\<And>n d. (n, d) \<in> set L \<Longrightarrow> n \<in> set (dict_keys nodes)) \<Longrightarrow>
   \<exists>nodes'. total_deg_loop L nodes = Inr nodes'"
proof (induction L arbitrary: nodes)
  case Nil
  show ?case by simp
next
  case (Cons nd L)
  obtain node deg where nd: "nd = (node, deg)" by (cases nd)
  from Cons.prems [of node deg] have "node \<in> set (dict_keys nodes)" by (simp add: nd)
  from dict_get_in_keys [OF this] obtain attrs where g: "dict_get nodes node = Inr attrs" by blast
  have "\<exists>nodes'. total_deg_loop L (dict_set nodes node (attrs\<lparr>attr_total_deg := deg\<rparr>)) = Inr nodes'"
    by (rule Cons.IH) (use Cons.prems in \<open>auto simp: nd dict_keys_dict_set\<close>)
  then show ?case by (simp add: nd g)
qed

lemma assign_total_deg_total:
  assumes "wf_graph G"
  shows "\<exists>G1. assign_total_deg G = Inr G1"
proof -
  have "\<exists>nodes'. total_deg_loop (degree_view G) (g_node G) = Inr nodes'"
  proof (rule total_deg_loop_total)
    fix n d assume "(n, d) \<in> set (degree_view G)"
    then have "n \<in> set (map fst (degree_view G))" by force
    then show "n \<in> set (dict_keys (g_node G))"
      using wf_graph_parts(1) [OF assms] by (simp add: fst_degree_view)
  qed
  then show ?thesis by (auto simp: assign_total_deg_def)
qed

lemma prune_top_n_total:
  assumes "wf_graph G"
  shows "\<exists>Gf. prune_top_n G top_n = Inr Gf"
  by (simp add: prune_top_n_def edge_weights_of_wf [OF assms] Let_def)

text \<open>When no amount is negative, each of the three builders returns a graph: no
  statistic is missing, no list element is missing, and no weight is missing.\<close>

theorem builders_return:
  assumes nonneg: "\<forall>(title, amount)\<in>set df. 0 \<le> amount"
  shows "(\<exists>Gf. generate_graph_data_all env df top_n = Inr Gf)
       \<and> (\<exists>Gf. generate_graph_data_word env df word top_n = Inr Gf)
       \<and> (\<exists>Gf. generate_graph_data_words env df words = Inr Gf)"
proof -
  from generate_data_all_tokens [OF nonneg, where env = env] obtain stats where
    s: "generate_data env df 0 = Inr stats"
    and attrs: "\<And>title tok. title \<in> set (map fst df) \<Longrightarrow> tok \<in> set (tokenize_and_stem env title) \<Longrightarrow>
                  \<exists>a. node_attrs_of stats tok = Inr a"
    by blast
  have "\<exists>Gf. generate_graph_data_all env df top_n = Inr Gf"
  proof -
    from all_titles_loop_total [of "map fst df" env stats empty_graph] attrs
    obtain G0 where b: "all_titles_loop env stats (map fst df) empty_graph = Inr G0" by blast
    have wf0: "wf_graph G0" by (rule wf_all_titles_loop [OF b wf_empty_graph])
    from assign_total_deg_total [OF wf0] obtain G1 where a: "assign_total_deg G0 = Inr G1" by blast
    from prune_top_n_total [OF assign_total_deg_result(4) [OF a wf0], of top_n]
    show ?thesis by (simp add: generate_graph_data_all_def s b a)
  qed
  moreover have "\<exists>Gf. generate_graph_data_word env df word top_n = Inr Gf"
  proof -
    from word_titles_loop_total [of "map fst df" env stats word empty_graph] attrs
    obtain G0 where b: "word_titles_loop env stats word (map fst df) empty_graph = Inr G0" by blast
    have wf0: "wf_graph G0" by (rule wf_word_titles_loop [OF b wf_empty_graph])
    from assign_total_deg_total [OF wf0] obtain G1 where a: "assign_total_deg G0 = Inr G1" by blast
    from prune_top_n_total [OF assign_total_deg_result(4) [OF a wf0], of top_n]
    show ?thesis by (simp add: generate_graph_data_word_def s b a)
  qed
  moreover have "\<exists>Gf. generate_graph_data_words env df words = Inr Gf"
  proof -
    from words_titles_loop_total [of "map fst df" env stats words empty_graph] attrs
    obtain G0 where b: "words_titles_loop env stats words (map fst df) empty_graph = Inr G0" by blast
    have wf0: "wf_graph G0" by (rule wf_words_titles_loop [OF b wf_empty_graph])
    from assign_total_deg_total [OF wf0] obtain G1 where a: "assign_total_deg G0 = Inr G1" by blast
    have "edge_weights_loop G1 (edges G1) []
            = Inr (map (\<lambda>e. (e, edge_weight G1 e)) (edges G1))"
      by (rule edge_weights_of_wf [OF assign_total_deg_result(4) [OF a wf0]])
    then show ?thesis by (simp add: generate_graph_data_words_def s b a)
  qed
  ultimately show ?thesis by simp
qed

lemma df_abc_nonneg: "\<forall>(title, amount)\<in>set df_abc. 0 \<le> amount"
  by (simp add: df_abc_def)

text \<open>The theorem on \<open>df_abc\<close>.\<close>

theorem builders_return_witness:
  "generate_graph_data_all env0 df_abc 2 = Inr graph_ab
   \<and> generate_graph_data_word env0 df_abc ''a'' 2 = Inr graph_ab
   \<and> generate_graph_data_words env0 df_abc [''a'', ''b'', ''c''] = Inr graph_abc
   \<and> map snd df_abc = [1, 1, 1]"
  using builders_return [OF df_abc_nonneg, of env0 2 "''a''" "[''a'', ''b'', ''c'']"]
  by (simp add: all_abc_2 word_abc_2 words_abc) (simp add: df_abc_def)

text \<open>With a negative amount the threshold 0 of \<^verbatim>\<open>generate_data\<close> drops a token, and the
  builder raises \<^verbatim>\<open>KeyError\<close> when it reads the token's statistics.\<close>

lemma word_negative: "generate_graph_data_word env0 [(''a b'', 1), (''a c'', -4), (''c d'', 2)] ''a'' 2 = Inl KeyError"
  by code_simp

end
